theory Spec2Isabelle
  imports Main "HOL-Library.Word"
begin

unbundle bit_operations_syntax

section \<open>Data model of mbtool/switcher.cpp\<close>

type_synonym byte = "8 word"

text \<open>The properties map: \<^verbatim>\<open>std::unordered_map<std::string, std::string>\<close>.\<close>

type_synonym props = "string \<Rightarrow> string option"

datatype ChecksumsGetResult = FOUND | NOT_FOUND | MALFORMED

datatype SwitchRomResult = SUCCEEDED | FAILED | CHECKSUM_NOT_FOUND | CHECKSUM_INVALID

text \<open>
  \<^verbatim>\<open>struct Flashable\<close>. The pair \<^verbatim>\<open>data\<close>/\<^verbatim>\<open>size\<close> is one byte list; the initial
  \<^verbatim>\<open>nullptr\<close> with size 0 is the empty list. The field \<^verbatim>\<open>image\<close> is called
  \<open>image_path\<close> here, since \<open>image\<close> is a constant of HOL.
\<close>

record Flashable =
  image_path :: string
  block_dev :: string
  expected_hash :: string
  hash :: string
  data :: "byte list"

section \<open>String helpers\<close>

text \<open>
  \<^verbatim>\<open>std::string::find\<close> with a one-character needle: the index of the first occurrence,
  \<open>None\<close> for \<^verbatim>\<open>npos\<close>.
\<close>

fun str_find :: "string \<Rightarrow> char \<Rightarrow> nat option" where
  "str_find [] c = None"
| "str_find (x # xs) c = (if x = c then Some 0 else map_option Suc (str_find xs c))"

text \<open>
  \<^verbatim>\<open>std::string::substr(pos, n)\<close> and \<^verbatim>\<open>substr(pos)\<close>. Every call in this file has
  \<open>pos \<le> length s\<close>, where C++ does not throw.
\<close>

definition substr :: "string \<Rightarrow> nat \<Rightarrow> nat \<Rightarrow> string" where
  "substr s pos n = take n (drop pos s)"

definition substr_from :: "string \<Rightarrow> nat \<Rightarrow> string" where
  "substr_from s pos = drop pos s"

section \<open>Checksum store\<close>

text \<open>
  \<^verbatim>\<open>checksums_get\<close>, lines 60 to 94. The output parameter \<^verbatim>\<open>sha512_out\<close> is passed in
  and returned: it is assigned on the \<open>FOUND\<close> path only.
\<close>

definition checksums_get ::
  "props \<Rightarrow> string \<Rightarrow> string \<Rightarrow> string \<Rightarrow> ChecksumsGetResult \<times> string" where
  "checksums_get props rom_id img sha512_out =
     (let key = rom_id @ ''/'' @ img in
      case props key of
        None \<Rightarrow> (NOT_FOUND, sha512_out)
      | Some val \<Rightarrow>
          (case str_find val (CHR '':'') of
             Some pos \<Rightarrow>
               (let algo = substr val 0 pos;
                    hash = substr_from val (pos + 1)
                in if algo \<noteq> ''sha512'' then (MALFORMED, sha512_out)
                   else (FOUND, hash))
           | None \<Rightarrow> (MALFORMED, sha512_out)))"

text \<open>\<^verbatim>\<open>checksums_update\<close>, lines 104 to 115.\<close>

definition checksums_update :: "props \<Rightarrow> string \<Rightarrow> string \<Rightarrow> string \<Rightarrow> props" where
  "checksums_update props rom_id img sha512 =
     (let key = rom_id @ ''/'' @ img;
          props1 = props(key \<mapsto> ''sha512:'')
      in props1(key \<mapsto> the (props1 key) @ sha512))"

section \<open>Helpers of util/ and of the libraries\<close>

text \<open>
  Modelled from the spec: \<^verbatim>\<open>util::starts_with\<close> and \<^verbatim>\<open>util::ends_with\<close> are declared in
  util/string.h, which is not among the sources; they are the prefix and the suffix test
  (the spec: a name that "starts with a fixed prefix", entries "ending in .img").
\<close>

definition starts_with :: "string \<Rightarrow> string \<Rightarrow> bool" where
  "starts_with s p = (take (length p) s = p)"

definition ends_with :: "string \<Rightarrow> string \<Rightarrow> bool" where
  "ends_with s p = (length p \<le> length s \<and> drop (length s - length p) s = p)"

text \<open>
  Modelled from the spec: \<^verbatim>\<open>util::base_name\<close> is declared in util/path.h, which is not
  among the sources. The spec writes the keys of the store as
  \<^verbatim>\<open><rom_id>/<image_basename>\<close>; every path passed here ends in a file name, so the
  base name is the text after the last slash.
\<close>

definition base_name :: "string \<Rightarrow> string" where
  "base_name path = rev (takeWhile (\<lambda>c. c \<noteq> CHR ''/'') (rev path))"

text \<open>
  Modelled from the spec: \<^verbatim>\<open>util::hex_string(data, size)\<close> is declared in util/string.h,
  which is not among the sources. The spec's data model: the digest is written as a
  lowercase hexadecimal string of fixed length, 128 characters for sha512, that is two
  digits for each of the \<open>size\<close> bytes of the array. The array is a function of the index.
\<close>

definition hex_digit :: "nat \<Rightarrow> char" where
  "hex_digit n = ''0123456789abcdef'' ! (n mod 16)"

definition hex_byte :: "byte \<Rightarrow> string" where
  "hex_byte b = [hex_digit (unat (drop_bit 4 b AND 0xf)), hex_digit (unat (b AND 0xf))]"

definition hex_string :: "(nat \<Rightarrow> byte) \<Rightarrow> nat \<Rightarrow> string" where
  "hex_string arr n = concat (map (\<lambda>i. hex_byte (arr i)) [0..<n])"

text \<open>The constants of the file and of openssl/sha.h.\<close>

definition MULTIBOOT_DIR :: string where
  "MULTIBOOT_DIR = ''/data/media/0/MultiBoot''"

definition SHA512_DIGEST_LENGTH :: nat where
  "SHA512_DIGEST_LENGTH = 64"

section \<open>The environment and the trace of effects\<close>

text \<open>
  What the operating system and the collaborators outside this file answer: the
  installed ROMs, and the outcomes of \<^verbatim>\<open>util::mkdir_recursive\<close>, \<^verbatim>\<open>opendir\<close> with
  \<^verbatim>\<open>readdir\<close> (the names of the entries, \<open>None\<close> when the directory cannot be opened),
  \<^verbatim>\<open>stat\<close>, \<^verbatim>\<open>util::file_read_all\<close> (the bytes of the file, \<open>None\<close> on failure),
  \<^verbatim>\<open>util::file_write_data\<close>, \<^verbatim>\<open>util::file_get_all_properties\<close> (the map read,
  \<open>None\<close> on failure), \<^verbatim>\<open>util::file_write_properties\<close> and the calls of
  \<^verbatim>\<open>fix_permissions\<close>. One invocation reads all it reads before it writes anything,
  so the answers are fixed for the invocation. \<open>SHA512\<close> is the digest function of
  OpenSSL: it fills the 64-byte array \<^verbatim>\<open>digest\<close>, a function of the index here.
\<close>

record env =
  installed_roms :: "string list"
  mkdir_recursive_ok :: "string \<Rightarrow> bool"
  readdir_names :: "string \<Rightarrow> string list option"
  stat_ok :: "string \<Rightarrow> bool"
  file_read_all :: "string \<Rightarrow> byte list option"
  file_write_data_ok :: "string \<Rightarrow> bool"
  file_get_all_properties :: "props option"
  file_write_properties_ok :: bool
  chown_ok :: bool
  chmod_recursive_ok :: bool
  selinux_lget_context :: "string option"
  selinux_lset_context_recursive_ok :: bool
  SHA512 :: "byte list \<Rightarrow> nat \<Rightarrow> byte"

text \<open>
  The hash of a buffer as lines 397 to 399 (and 506 to 508) compute it: the hexadecimal
  string of the 64 bytes of the SHA-512 digest.
\<close>

abbreviation sha512_hex :: "env \<Rightarrow> byte list \<Rightarrow> string" where
  "sha512_hex e buf \<equiv> hex_string (SHA512 e buf) SHA512_DIGEST_LENGTH"

text \<open>
  The calls with an effect, or whose order matters, in the order the code makes them:
  \<^item> \<open>EvReadAll path r\<close>: \<^verbatim>\<open>util::file_read_all(path, ..)\<close> and the buffer it gave
    (\<open>None\<close> when it failed);
  \<^item> \<open>EvSHA512 buf\<close>: \<^verbatim>\<open>SHA512\<close> over the buffer;
  \<^item> \<open>EvChecksumsRead props\<close>: \<^verbatim>\<open>checksums_read\<close> and the map after it;
  \<^item> \<open>EvChecksumsUpdate id img sha\<close>: \<^verbatim>\<open>checksums_update\<close>;
  \<^item> \<open>EvChecksumsGet id img ret out\<close>: \<^verbatim>\<open>checksums_get\<close>, its result and the output
    string after the call;
  \<^item> \<open>EvWriteData path buf ok\<close>: \<^verbatim>\<open>util::file_write_data(path, buf, ..)\<close>;
  \<^item> \<open>EvChecksumsWrite props ok\<close>: \<^verbatim>\<open>checksums_write(props)\<close>;
  \<^item> \<open>EvFixPermissions ok\<close>: \<^verbatim>\<open>fix_permissions()\<close>.
\<close>

datatype event =
    EvReadAll string "byte list option"
  | EvSHA512 "byte list"
  | EvChecksumsRead props
  | EvChecksumsUpdate string string string
  | EvChecksumsGet string string ChecksumsGetResult string
  | EvWriteData string "byte list" bool
  | EvChecksumsWrite props bool
  | EvFixPermissions bool

text \<open>The paths given to \<^verbatim>\<open>util::file_read_all\<close>, in the order of the calls.\<close>

fun read_paths :: "event list \<Rightarrow> string list" where
  "read_paths [] = []"
| "read_paths (EvReadAll p r # tr) = p # read_paths tr"
| "read_paths (ev # tr) = read_paths tr"

text \<open>
  Modelled from the spec: the class \<^verbatim>\<open>Roms\<close> (roms.h) is not among the sources; this
  file consumes only whether the ROM id exists among the installed ones.
\<close>

definition find_by_id :: "env \<Rightarrow> string \<Rightarrow> bool" where
  "find_by_id e rid = (rid \<in> set (installed_roms e))"

text \<open>
  \<^verbatim>\<open>checksums_read\<close>, lines 124 to 133. Modelled from the spec:
  \<^verbatim>\<open>util::file_get_all_properties\<close> is not among the sources; when it fails the caller
  goes on with the map it passed, which both callers create empty (the spec: a failed
  load is logged and treated as an empty store by callers).
\<close>

definition checksums_read :: "env \<Rightarrow> props \<Rightarrow> bool \<times> props" where
  "checksums_read e props =
     (case file_get_all_properties e of
        None \<Rightarrow> (False, props)
      | Some loaded \<Rightarrow> (True, loaded))"

text \<open>
  \<^verbatim>\<open>checksums_write\<close>, lines 142 to 170: the failures of remove, chown and chmod are
  only logged; the result is that of \<^verbatim>\<open>util::file_write_properties\<close>.
\<close>

definition checksums_write :: "env \<Rightarrow> props \<Rightarrow> bool" where
  "checksums_write e props = (if \<not> file_write_properties_ok e then False else True)"

section \<open>Block devices and extra images\<close>

text \<open>
  \<^verbatim>\<open>find_block_dev\<close>, lines 193 to 218. Beside the path found (empty when none) the
  model returns the paths given to \<^verbatim>\<open>stat\<close>, in order.
\<close>

fun search_dirs_loop :: "env \<Rightarrow> string list \<Rightarrow> string \<Rightarrow> string \<times> string list" where
  "search_dirs_loop e [] partn = ([], [])"
| "search_dirs_loop e (base_dir # rest) partn =
     (let block_dev = base_dir @ ''/'' @ partn
      in if stat_ok e block_dev then (block_dev, [block_dev])
         else (case search_dirs_loop e rest partn of
                 (found, probed) \<Rightarrow> (found, block_dev # probed)))"

definition find_block_dev :: "env \<Rightarrow> string list \<Rightarrow> string \<Rightarrow> string \<times> string list" where
  "find_block_dev e search_dirs partn =
     (if starts_with partn ''mmcblk'' then
        (let path = ''/dev/block/'' @ partn
         in if stat_ok e path then (path, [path])
            else (case search_dirs_loop e search_dirs partn of
                    (found, probed) \<Rightarrow> (found, path # probed)))
      else search_dirs_loop e search_dirs partn)"

text \<open>\<^verbatim>\<open>fix_permissions\<close>, lines 230 to 254.\<close>

definition fix_permissions :: "env \<Rightarrow> bool" where
  "fix_permissions e =
     (if \<not> chown_ok e then False
      else if \<not> chmod_recursive_ok e then False
      else (case selinux_lget_context e of
              Some context \<Rightarrow>
                (if \<not> selinux_lset_context_recursive_ok e then False else True)
            | None \<Rightarrow> True))"

text \<open>A Flashable as \<^verbatim>\<open>emplace_back()\<close> makes it, with the two fields then assigned.\<close>

definition new_flashable :: "string \<Rightarrow> string \<Rightarrow> Flashable" where
  "new_flashable path dev =
     \<lparr>image_path = path, block_dev = dev, expected_hash = [], hash = [], data = []\<rparr>"

text \<open>
  \<^verbatim>\<open>add_extra_images\<close>, lines 256 to 312: the loop over the entries of the directory,
  then the function, which fails only when the directory cannot be opened.
\<close>

fun add_extra_loop ::
  "env \<Rightarrow> string \<Rightarrow> string list \<Rightarrow> string list \<Rightarrow> Flashable list \<Rightarrow> Flashable list" where
  "add_extra_loop e multiboot_dir block_dev_dirs [] flashables = flashables"
| "add_extra_loop e multiboot_dir block_dev_dirs (name # rest) flashables =
     (if name = ''.img'' \<or> \<not> ends_with name ''.img'' then
        add_extra_loop e multiboot_dir block_dev_dirs rest flashables
      else if starts_with name ''boot.img'' then
        add_extra_loop e multiboot_dir block_dev_dirs rest flashables
      else
        (let partn = substr name 0 (length name - 4);
             path = multiboot_dir @ ''/'' @ name
         in if partn \<noteq> ''mdm'' \<and> partn \<noteq> ''modem'' then
              add_extra_loop e multiboot_dir block_dev_dirs rest flashables
            else
              (let block_dev = fst (find_block_dev e block_dev_dirs partn)
               in if block_dev = [] then
                    add_extra_loop e multiboot_dir block_dev_dirs rest flashables
                  else
                    add_extra_loop e multiboot_dir block_dev_dirs rest
                      (flashables @ [new_flashable path block_dev]))))"

definition add_extra_images ::
  "env \<Rightarrow> string \<Rightarrow> string list \<Rightarrow> Flashable list \<Rightarrow> bool \<times> Flashable list" where
  "add_extra_images e multiboot_dir block_dev_dirs flashables =
     (case readdir_names e multiboot_dir of
        None \<Rightarrow> (False, flashables)
      | Some names \<Rightarrow> (True, add_extra_loop e multiboot_dir block_dev_dirs names flashables))"

section \<open>Switching to another ROM\<close>

text \<open>
  The list of Flashables as \<^verbatim>\<open>switch_rom\<close> builds it, lines 368 to 381: the boot image
  first, then the extra images; a directory that cannot be opened adds none.
\<close>

definition init_flashables :: "env \<Rightarrow> string \<Rightarrow> string \<Rightarrow> string list \<Rightarrow> Flashable list" where
  "init_flashables e rid boot_blockdev blockdev_base_dirs =
     (let multiboot_path = MULTIBOOT_DIR @ ''/'' @ rid;
          bootimg_path = multiboot_path @ ''/boot.img'';
          flashables = [new_flashable bootimg_path boot_blockdev]
      in snd (add_extra_images e multiboot_path blockdev_base_dirs flashables))"

text \<open>
  The first loop of \<^verbatim>\<open>switch_rom\<close>, lines 386 to 418. It returns the result of an
  early \<^verbatim>\<open>return\<close> (\<open>None\<close> when the loop runs to its end), the Flashables as the
  loop leaves them, the map and the trace.
\<close>

fun read_verify_loop ::
  "env \<Rightarrow> string \<Rightarrow> bool \<Rightarrow> props \<Rightarrow> Flashable list \<Rightarrow>
     SwitchRomResult option \<times> Flashable list \<times> props \<times> event list" where
  "read_verify_loop e rid force props [] = (None, [], props, [])"
| "read_verify_loop e rid force props (f # fs) =
     (case file_read_all e (image_path f) of
        None \<Rightarrow> (Some FAILED, f # fs, props, [EvReadAll (image_path f) None])
      | Some buf \<Rightarrow>
          (let f1 = f\<lparr>data := buf\<rparr>;
               f2 = f1\<lparr>hash := hex_string (SHA512 e (data f1)) SHA512_DIGEST_LENGTH\<rparr>;
               img = base_name (image_path f2);
               props1 = (if force then checksums_update props rid img (hash f2) else props);
               upd = (if force then [EvChecksumsUpdate rid img (hash f2)] else []);
               got = checksums_get props1 rid img (expected_hash f2);
               ret = fst got;
               f3 = f2\<lparr>expected_hash := snd got\<rparr>;
               tr = [EvReadAll (image_path f) (Some buf), EvSHA512 (data f1)] @ upd @
                    [EvChecksumsGet rid img ret (expected_hash f3)]
           in if ret = MALFORMED then (Some CHECKSUM_INVALID, f3 # fs, props1, tr)
              else if ret = FOUND \<and> expected_hash f3 \<noteq> hash f3 then
                (Some CHECKSUM_INVALID, f3 # fs, props1, tr)
              else
                (case read_verify_loop e rid force props1 fs of
                   (r, fs', props', tr') \<Rightarrow> (r, f3 # fs', props', tr @ tr'))))"

text \<open>The second loop, lines 423 to 428: is some expected hash still empty?\<close>

fun missing_loop :: "Flashable list \<Rightarrow> bool" where
  "missing_loop [] = False"
| "missing_loop (f # fs) = (if expected_hash f = [] then True else missing_loop fs)"

text \<open>The third loop, lines 431 to 439: flash the buffers, stopping at the first failure.\<close>

fun flash_loop :: "env \<Rightarrow> Flashable list \<Rightarrow> bool \<times> event list" where
  "flash_loop e [] = (True, [])"
| "flash_loop e (f # fs) =
     (if \<not> file_write_data_ok e (block_dev f) then
        (False, [EvWriteData (block_dev f) (data f) False])
      else
        (case flash_loop e fs of
           (ok, tr) \<Rightarrow> (ok, EvWriteData (block_dev f) (data f) True # tr)))"

text \<open>\<^verbatim>\<open>switch_rom\<close>, lines 333 to 451: the result and the trace of its effects.\<close>

definition switch_rom ::
  "env \<Rightarrow> string \<Rightarrow> string \<Rightarrow> string list \<Rightarrow> bool \<Rightarrow> SwitchRomResult \<times> event list" where
  "switch_rom e rid boot_blockdev blockdev_base_dirs force_update_checksums =
     (let multiboot_path = MULTIBOOT_DIR @ ''/'' @ rid
      in if \<not> find_by_id e rid then (FAILED, [])
         else if \<not> mkdir_recursive_ok e multiboot_path then (FAILED, [])
         else
           (let flashables = init_flashables e rid boot_blockdev blockdev_base_dirs;
                props = snd (checksums_read e Map.empty);
                tr0 = [EvChecksumsRead props]
            in case read_verify_loop e rid force_update_checksums props flashables of
                 (early, fl, props1, tr1) \<Rightarrow>
                   (case early of
                      Some r \<Rightarrow> (r, tr0 @ tr1)
                    | None \<Rightarrow>
                        if missing_loop fl then (CHECKSUM_NOT_FOUND, tr0 @ tr1)
                        else
                          (case flash_loop e fl of
                             (written, tr2) \<Rightarrow>
                               if \<not> written then (FAILED, tr0 @ tr1 @ tr2)
                               else
                                 (let tr3 = (if force_update_checksums
                                             then [EvChecksumsWrite props1 (checksums_write e props1)]
                                             else [])
                                  in if \<not> fix_permissions e then
                                       (FAILED, tr0 @ tr1 @ tr2 @ tr3 @ [EvFixPermissions False])
                                     else
                                       (SUCCEEDED,
                                        tr0 @ tr1 @ tr2 @ tr3 @ [EvFixPermissions True]))))))"

section \<open>Setting the kernel\<close>

text \<open>\<^verbatim>\<open>set_kernel\<close>, lines 464 to 534: the result and the trace of its effects.\<close>

definition set_kernel :: "env \<Rightarrow> string \<Rightarrow> string \<Rightarrow> bool \<times> event list" where
  "set_kernel e rid boot_blockdev =
     (let multiboot_path = MULTIBOOT_DIR @ ''/'' @ rid;
          bootimg_path = multiboot_path @ ''/boot.img''
      in if \<not> find_by_id e rid then (False, [])
         else if \<not> mkdir_recursive_ok e multiboot_path then (False, [])
         else
           (case file_read_all e boot_blockdev of
              None \<Rightarrow> (False, [EvReadAll boot_blockdev None])
            | Some buf \<Rightarrow>
                (let sha = hex_string (SHA512 e buf) SHA512_DIGEST_LENGTH;
                     props = snd (checksums_read e Map.empty);
                     props1 = checksums_update props rid ''boot.img'' sha;
                     tr = [EvReadAll boot_blockdev (Some buf), EvSHA512 buf,
                           EvChecksumsRead props, EvChecksumsUpdate rid ''boot.img'' sha]
                 in if \<not> file_write_data_ok e bootimg_path then
                      (False, tr @ [EvWriteData bootimg_path buf False])
                    else
                      (let tr1 = tr @ [EvWriteData bootimg_path buf True,
                                       EvChecksumsWrite props1 (checksums_write e props1)]
                       in if \<not> fix_permissions e then (False, tr1 @ [EvFixPermissions False])
                          else (True, tr1 @ [EvFixPermissions True])))))"

section \<open>The privileged-open wire schema\<close>

text \<open>
  protocol/v2/open.fbs: \<^verbatim>\<open>enum OpenFlag : short\<close> with its six values, numbered from 0
  in the order of declaration, and the two tables with their fields.
\<close>

datatype OpenFlag = APPEND | CREAT | EXCL | RDWR | TRUNC | WRONLY

fun OpenFlag_value :: "OpenFlag \<Rightarrow> 16 word" where
  "OpenFlag_value APPEND = 0"
| "OpenFlag_value CREAT = 1"
| "OpenFlag_value EXCL = 2"
| "OpenFlag_value RDWR = 3"
| "OpenFlag_value TRUNC = 4"
| "OpenFlag_value WRONLY = 5"

record OpenRequest =
  path :: string
  flags :: "OpenFlag list"

record OpenResponse =
  success :: bool
  error_msg :: string

section \<open>A concrete environment\<close>

text \<open>
  One installed ROM \<open>r\<close> whose directory holds a boot image, a modem image and a few
  entries that are skipped; the modem partition is found in the second search directory.
\<close>

definition example_env :: env where
  "example_env =
     \<lparr>installed_roms = [''r''],
      mkdir_recursive_ok = (\<lambda>_. True),
      readdir_names = (\<lambda>_. Some [''.'', ''boot.img'', ''modem.img'', ''system.img'']),
      stat_ok = (\<lambda>p. p = ''/b/modem'' \<or> p = ''/b/mmcblk0p1''),
      file_read_all =
        (\<lambda>p. if p = ''/data/media/0/MultiBoot/r/boot.img'' then Some [1, 2]
              else if p = ''/data/media/0/MultiBoot/r/modem.img'' then Some [3]
              else if p = ''/dev/boot'' then Some [4]
              else None),
      file_write_data_ok = (\<lambda>_. True),
      file_get_all_properties = None,
      file_write_properties_ok = True,
      chown_ok = True,
      chmod_recursive_ok = True,
      selinux_lget_context = Some ''u:object_r:media_rw_data_file:s0'',
      selinux_lset_context_recursive_ok = True,
      SHA512 = (\<lambda>buf i. of_nat (length buf + i))\<rparr>"

text \<open>
  Variants of the environment: a store whose entry for the boot image has an empty
  digest (a mismatch) and no entry for the modem image; a store with no entry for the
  boot image and an entry of another algorithm for the modem image.
\<close>

definition env_boot_mismatch :: env where
  "env_boot_mismatch =
     example_env\<lparr>file_get_all_properties := Some [''r/boot.img'' \<mapsto> ''sha512:'']\<rparr>"

definition env_modem_malformed :: env where
  "env_modem_malformed =
     example_env\<lparr>file_get_all_properties := Some [''r/modem.img'' \<mapsto> ''md5:00'']\<rparr>"

section \<open>The reading phase as the specification words it\<close>

text \<open>
  The specification's wording of the read phase, for comparison with the code: once a
  digest computation or a checksum lookup appears in the trace, every Flashable of the
  set has already been read successfully.
\<close>

fun is_verification :: "event \<Rightarrow> bool" where
  "is_verification (EvSHA512 buf) = True"
| "is_verification (EvChecksumsGet i m ret out) = True"
| "is_verification ev = False"

fun is_read_of :: "string \<Rightarrow> event \<Rightarrow> bool" where
  "is_read_of p (EvReadAll q r) = (q = p \<and> r \<noteq> None)"
| "is_read_of p ev = False"

definition read_phase_first :: "Flashable list \<Rightarrow> event list \<Rightarrow> bool" where
  "read_phase_first fl tr =
     (if list_ex is_verification tr then
        list_all (\<lambda>f. list_ex (is_read_of (image_path f))
                        (takeWhile (\<lambda>ev. \<not> is_verification ev) tr)) fl
      else True)"

section \<open>Facts about the string helpers and the checksum store\<close>

lemma str_find_None: "str_find s c = None \<longleftrightarrow> c \<notin> set s"
  by (induction s) auto

lemma str_find_Some:
  "str_find s c = Some n \<Longrightarrow> take n s = takeWhile (\<lambda>x. x \<noteq> c) s \<and>
     drop (Suc n) s = tl (dropWhile (\<lambda>x. x \<noteq> c) s) \<and> n < length s"
  by (induction s arbitrary: n) (auto split: if_splits)

lemma str_find_nth: "str_find s c = Some n \<Longrightarrow> s = take n s @ c # drop (Suc n) s"
  by (induction s arbitrary: n) (auto split: if_splits)

lemma checksums_get_FOUND_iff:
  assumes "props (rid @ ''/'' @ img) = Some v"
  shows "checksums_get props rid img out = (FOUND, h) \<longleftrightarrow> v = ''sha512:'' @ h"
proof
  assume "v = ''sha512:'' @ h"
  then show "checksums_get props rid img out = (FOUND, h)"
    using assms by (simp add: checksums_get_def substr_def substr_from_def Let_def)
next
  assume g: "checksums_get props rid img out = (FOUND, h)"
  then obtain n where n: "str_find v (CHR '':'') = Some n"
    using assms by (auto simp: checksums_get_def split: option.splits)
  from g n assms have "take n v = ''sha512''" "drop (Suc n) v = h"
    by (auto simp: checksums_get_def substr_def substr_from_def Let_def split: if_splits)
  then show "v = ''sha512:'' @ h"
    using str_find_nth [OF n] by simp
qed

lemma checksums_get_NOT_FOUND_iff:
  "fst (checksums_get props rid img out) = NOT_FOUND \<longleftrightarrow> props (rid @ ''/'' @ img) = None"
  by (auto simp: checksums_get_def Let_def split: option.splits if_splits)

lemma checksums_get_out:
  "checksums_get props rid img out = (ret, out') \<Longrightarrow> ret \<noteq> FOUND \<Longrightarrow> out' = out"
  by (auto simp: checksums_get_def Let_def split: option.splits if_splits)

lemma checksums_get_after_update:
  "checksums_get (checksums_update props rid img d) rid img out = (FOUND, d)"
  by (simp add: checksums_get_def checksums_update_def substr_def substr_from_def Let_def)

lemma checksums_update_eq:
  "checksums_update props rid img h = props(rid @ ''/'' @ img \<mapsto> ''sha512:'' @ h)"
  by (simp add: checksums_update_def Let_def)

lemma hex_string_length: "length (hex_string arr n) = 2 * n"
  by (induction n) (simp_all add: hex_string_def hex_byte_def)

lemma sha512_hex_not_Nil: "hex_string arr SHA512_DIGEST_LENGTH \<noteq> []"
  using hex_string_length [of arr SHA512_DIGEST_LENGTH]
  by (auto simp: SHA512_DIGEST_LENGTH_def)

section \<open>Checksum store: lookup and update\<close>

text \<open>
  C4. For a key present in the store, \<open>checksums_get\<close> answers \<open>MALFORMED\<close> exactly
  when the stored value has no colon or the text before its first colon is not
  \<open>sha512\<close>; otherwise it answers \<open>FOUND\<close> and outputs the text after the first colon.
  For an absent key it answers \<open>NOT_FOUND\<close> and leaves the output untouched.
\<close>

theorem checksums_get_cases:
  "(props (rom_id @ ''/'' @ img) = None \<longrightarrow>
      checksums_get props rom_id img out = (NOT_FOUND, out)) \<and>
   (\<forall>v. props (rom_id @ ''/'' @ img) = Some v \<longrightarrow>
      (fst (checksums_get props rom_id img out) = MALFORMED \<longleftrightarrow>
         (CHR '':'' \<notin> set v \<or> takeWhile (\<lambda>c. c \<noteq> CHR '':'') v \<noteq> ''sha512'')) \<and>
      (fst (checksums_get props rom_id img out) \<noteq> MALFORMED \<longrightarrow>
         checksums_get props rom_id img out =
           (FOUND, tl (dropWhile (\<lambda>c. c \<noteq> CHR '':'') v))))"
proof (intro conjI allI impI)
  assume "props (rom_id @ ''/'' @ img) = None"
  then show "checksums_get props rom_id img out = (NOT_FOUND, out)"
    by (simp add: checksums_get_def)
next
  fix v
  assume v: "props (rom_id @ ''/'' @ img) = Some v"
  show "fst (checksums_get props rom_id img out) = MALFORMED \<longleftrightarrow>
          (CHR '':'' \<notin> set v \<or> takeWhile (\<lambda>c. c \<noteq> CHR '':'') v \<noteq> ''sha512'')"
  proof (cases "str_find v (CHR '':'')")
    case None
    then show ?thesis
      using v str_find_None [of v "CHR '':''"] by (simp add: checksums_get_def)
  next
    case (Some n)
    then have "CHR '':'' \<in> set v"
      using str_find_None [of v "CHR '':''"] by auto
    then show ?thesis
      using v Some str_find_Some [OF Some]
      by (simp add: checksums_get_def substr_def Let_def)
  qed
next
  fix v
  assume v: "props (rom_id @ ''/'' @ img) = Some v"
    and ok: "fst (checksums_get props rom_id img out) \<noteq> MALFORMED"
  show "checksums_get props rom_id img out =
          (FOUND, tl (dropWhile (\<lambda>c. c \<noteq> CHR '':'') v))"
  proof (cases "str_find v (CHR '':'')")
    case None
    then show ?thesis using v ok by (simp add: checksums_get_def)
  next
    case (Some n)
    then show ?thesis
      using v ok str_find_Some [OF Some]
      by (simp add: checksums_get_def substr_def substr_from_def Let_def split: if_splits)
  qed
qed

theorem checksums_get_cases_witness:
  "checksums_get [''rom1/boot.img'' \<mapsto> ''sha512:ab:c''] ''rom1'' ''boot.img'' ''old'' =
     (FOUND, ''ab:c'') \<and>
   fst (checksums_get [''rom1/boot.img'' \<mapsto> ''md5:abc''] ''rom1'' ''boot.img'' ''old'') =
     MALFORMED \<and>
   fst (checksums_get [''rom1/boot.img'' \<mapsto> ''sha512abc''] ''rom1'' ''boot.img'' ''old'') =
     MALFORMED \<and>
   checksums_get [''rom1/boot.img'' \<mapsto> ''sha512:abc''] ''rom1'' ''modem.img'' ''old'' =
     (NOT_FOUND, ''old'')"
  using
    checksums_get_cases [of "[''rom1/boot.img'' \<mapsto> ''sha512:ab:c'']" "''rom1''" "''boot.img''" "''old''"]
    checksums_get_cases [of "[''rom1/boot.img'' \<mapsto> ''md5:abc'']" "''rom1''" "''boot.img''" "''old''"]
    checksums_get_cases [of "[''rom1/boot.img'' \<mapsto> ''sha512abc'']" "''rom1''" "''boot.img''" "''old''"]
    checksums_get_cases [of "[''rom1/boot.img'' \<mapsto> ''sha512:abc'']" "''rom1''" "''modem.img''" "''old''"]
  by simp

text \<open>
  C7. After \<open>checksums_update\<close> with a digest string \<open>d\<close>, \<open>checksums_get\<close> for the
  same ROM id and image name answers \<open>FOUND\<close> and outputs exactly \<open>d\<close>, whatever the
  store held before and whatever characters \<open>d\<close> is made of.
\<close>

theorem checksums_update_then_get:
  "checksums_get (checksums_update props rom_id img d) rom_id img out = (FOUND, d)"
  by (simp add: checksums_get_def checksums_update_def substr_def substr_from_def Let_def)

section \<open>The block device resolver\<close>

lemma search_dirs_loop_find:
  "fst (search_dirs_loop e dirs p) =
     (case find (\<lambda>d. stat_ok e (d @ ''/'' @ p)) dirs of
        None \<Rightarrow> [] | Some d \<Rightarrow> d @ ''/'' @ p)"
  by (induction dirs) (auto simp: Let_def split: prod.splits)

lemma search_dirs_loop_probed:
  "snd (search_dirs_loop e dirs p) =
     map (\<lambda>d. d @ ''/'' @ p)
       (take (Suc (length (takeWhile (\<lambda>d. \<not> stat_ok e (d @ ''/'' @ p)) dirs))) dirs)"
  by (induction dirs) (auto simp: Let_def split: prod.splits)

lemma search_dirs_loop_empty:
  "p \<noteq> [] \<Longrightarrow>
   fst (search_dirs_loop e dirs p) = [] \<longleftrightarrow> (\<forall>d \<in> set dirs. \<not> stat_ok e (d @ ''/'' @ p))"
  by (induction dirs) (auto simp: Let_def split: prod.splits)

text \<open>
  C10. For a partition name that begins with \<open>mmcblk\<close> and whose direct path
  \<open>/dev/block/<name>\<close> does not exist, \<open>find_block_dev\<close> goes on to the search
  directories: it probes \<open><dir>/<name>\<close> for the directories in order, up to and
  including the first that exists, returns that path, and returns the empty string
  exactly when none exists.
\<close>

theorem find_block_dev_mmcblk_fallthrough:
  assumes "starts_with partn ''mmcblk''"
    and "\<not> stat_ok e (''/dev/block/'' @ partn)"
  shows "fst (find_block_dev e search_dirs partn) =
           (case find (\<lambda>d. stat_ok e (d @ ''/'' @ partn)) search_dirs of
              None \<Rightarrow> [] | Some d \<Rightarrow> d @ ''/'' @ partn) \<and>
         (fst (find_block_dev e search_dirs partn) = [] \<longleftrightarrow>
            (\<forall>d \<in> set search_dirs. \<not> stat_ok e (d @ ''/'' @ partn))) \<and>
         snd (find_block_dev e search_dirs partn) =
           (''/dev/block/'' @ partn) #
           map (\<lambda>d. d @ ''/'' @ partn)
             (take (Suc (length (takeWhile (\<lambda>d. \<not> stat_ok e (d @ ''/'' @ partn)) search_dirs)))
                search_dirs)"
proof -
  from assms(1) have ne: "partn \<noteq> []"
    by (auto simp: starts_with_def)
  have eq: "find_block_dev e search_dirs partn =
      (fst (search_dirs_loop e search_dirs partn),
       (''/dev/block/'' @ partn) # snd (search_dirs_loop e search_dirs partn))"
    using assms by (simp add: find_block_dev_def Let_def split: prod.splits)
  show ?thesis
    unfolding eq fst_conv snd_conv
    using search_dirs_loop_find [of e search_dirs partn]
      search_dirs_loop_probed [of e search_dirs partn]
      search_dirs_loop_empty [OF ne, of e search_dirs]
    by simp
qed

theorem find_block_dev_mmcblk_fallthrough_witness:
  "find_block_dev example_env [''/a'', ''/b'', ''/c''] ''mmcblk0p1'' =
     (''/b/mmcblk0p1'', [''/dev/block/mmcblk0p1'', ''/a/mmcblk0p1'', ''/b/mmcblk0p1'']) \<and>
   find_block_dev example_env [''/a'', ''/c''] ''mmcblk0p1'' =
     ([], [''/dev/block/mmcblk0p1'', ''/a/mmcblk0p1'', ''/c/mmcblk0p1''])"
proof -
  have s: "starts_with ''mmcblk0p1'' ''mmcblk''"
    by (simp add: starts_with_def)
  have n: "\<not> stat_ok example_env (''/dev/block/'' @ ''mmcblk0p1'')"
    by (simp add: example_env_def)
  show ?thesis
    using find_block_dev_mmcblk_fallthrough [OF s n, of "[''/a'', ''/b'', ''/c'']"]
      find_block_dev_mmcblk_fallthrough [OF s n, of "[''/a'', ''/c'']"]
    by (simp add: example_env_def prod_eq_iff)
qed

section \<open>The wire schema of the privileged open\<close>

text \<open>
  C8. The flags of an open request are drawn from exactly six values (append, create,
  exclusive, read-write, truncate, write-only), sent as distinct 16-bit values. A
  request is exactly a path string with a list of flags, and a response is exactly a
  success boolean with an error message: every response is determined by these two
  fields, so it has no field for a file descriptor.
\<close>

theorem open_schema_fields:
  "(UNIV :: OpenFlag set) = {APPEND, CREAT, EXCL, RDWR, TRUNC, WRONLY} \<and>
   card (UNIV :: OpenFlag set) = 6 \<and>
   inj OpenFlag_value \<and>
   (\<forall>req :: OpenRequest. req = \<lparr>path = path req, flags = flags req\<rparr>) \<and>
   (\<forall>p fl. path \<lparr>path = p, flags = fl\<rparr> = p \<and> flags \<lparr>path = p, flags = fl\<rparr> = fl) \<and>
   (\<forall>resp :: OpenResponse. resp = \<lparr>success = success resp, error_msg = error_msg resp\<rparr>) \<and>
   (\<forall>b m. success \<lparr>success = b, error_msg = m\<rparr> = b \<and>
          error_msg \<lparr>success = b, error_msg = m\<rparr> = m)"
proof -
  have u: "(UNIV :: OpenFlag set) = {APPEND, CREAT, EXCL, RDWR, TRUNC, WRONLY}"
    using OpenFlag.exhaust by auto
  have c: "card (UNIV :: OpenFlag set) = 6"
    unfolding u by simp
  have i: "inj OpenFlag_value"
  proof (rule injI)
    fix x y
    assume "OpenFlag_value x = OpenFlag_value y"
    then show "x = y" by (cases x; cases y) simp_all
  qed
  show ?thesis using u c i by simp
qed

section \<open>The image set\<close>

lemma add_extra_loop_expected:
  "\<forall>f \<in> set fl. expected_hash f = [] \<Longrightarrow>
   \<forall>f \<in> set (add_extra_loop e dir dirs names fl). expected_hash f = []"
proof (induction names arbitrary: fl)
  case Nil
  then show ?case by simp
next
  case (Cons name names)
  have ext: "\<forall>f \<in> set (fl @ [new_flashable p b]). expected_hash f = []" for p b
    using Cons.prems by (auto simp: new_flashable_def)
  show ?case
    using Cons.IH [OF Cons.prems] Cons.IH [OF ext] by (simp add: Let_def)
qed

lemma init_flashables_expected:
  "f \<in> set (init_flashables e rid bdev dirs) \<Longrightarrow> expected_hash f = []"
  using add_extra_loop_expected [of "[new_flashable (MULTIBOOT_DIR @ ''/'' @ rid @ ''/boot.img'') bdev]"
      e "MULTIBOOT_DIR @ ''/'' @ rid" dirs]
  by (auto simp: init_flashables_def add_extra_images_def Let_def new_flashable_def
      split: option.splits)

lemma whitelisted_name:
  assumes "ends_with name ''.img''" and "substr name 0 (length name - 4) = p"
  shows "name = p @ ''.img''"
proof -
  have l: "length ''.img'' = 4"
    by simp
  from assms(1) have "drop (length name - 4) name = ''.img''"
    unfolding ends_with_def l by simp
  moreover from assms(2) have "take (length name - 4) name = p"
    by (simp add: substr_def)
  ultimately show ?thesis
    using append_take_drop_id [of "length name - 4" name] by simp
qed

lemma add_extra_loop_step:
  "add_extra_loop e dir dirs (name # names) fl = add_extra_loop e dir dirs names fl \<or>
   (\<exists>bd. (name = ''mdm.img'' \<or> name = ''modem.img'') \<and>
      add_extra_loop e dir dirs (name # names) fl =
        add_extra_loop e dir dirs names (fl @ [new_flashable (dir @ ''/'' @ name) bd]))"
proof (cases "name = ''.img'' \<or> \<not> ends_with name ''.img'' \<or> starts_with name ''boot.img''")
  case True
  then show ?thesis by auto
next
  case False
  then have en: "ends_with name ''.img''"
    by simp
  show ?thesis
  proof (cases "substr name 0 (length name - 4) = ''mdm'' \<or>
      substr name 0 (length name - 4) = ''modem''")
    case wl: True
    then have "name = ''mdm.img'' \<or> name = ''modem.img''"
      using whitelisted_name [OF en] by auto
    with False wl show ?thesis
      by (auto simp: Let_def)
  next
    case wl: False
    with False show ?thesis
      by (auto simp: Let_def)
  qed
qed

lemma add_extra_loop_paths:
  "f \<in> set (add_extra_loop e dir dirs names fl) \<Longrightarrow>
   f \<in> set fl \<or> image_path f = dir @ ''/mdm.img'' \<or> image_path f = dir @ ''/modem.img''"
proof (induction names arbitrary: fl)
  case Nil
  then show ?case by simp
next
  case (Cons name names)
  from add_extra_loop_step [of e dir dirs name names fl] show ?case
  proof
    assume "add_extra_loop e dir dirs (name # names) fl = add_extra_loop e dir dirs names fl"
    with Cons.prems Cons.IH [of fl] show ?thesis by simp
  next
    assume "\<exists>bd. (name = ''mdm.img'' \<or> name = ''modem.img'') \<and>
      add_extra_loop e dir dirs (name # names) fl =
        add_extra_loop e dir dirs names (fl @ [new_flashable (dir @ ''/'' @ name) bd])"
    then obtain bd where n: "name = ''mdm.img'' \<or> name = ''modem.img''"
      and eq: "add_extra_loop e dir dirs (name # names) fl =
        add_extra_loop e dir dirs names (fl @ [new_flashable (dir @ ''/'' @ name) bd])"
      by blast
    from Cons.prems eq Cons.IH [of "fl @ [new_flashable (dir @ ''/'' @ name) bd]"]
    have "f \<in> set (fl @ [new_flashable (dir @ ''/'' @ name) bd]) \<or>
        image_path f = dir @ ''/mdm.img'' \<or> image_path f = dir @ ''/modem.img''"
      by simp
    with n show ?thesis
      by (auto simp: new_flashable_def)
  qed
qed

lemma init_flashables_paths:
  assumes "f \<in> set (init_flashables e rid bdev dirs)"
  shows "image_path f = MULTIBOOT_DIR @ ''/'' @ rid @ ''/boot.img'' \<or>
         image_path f = MULTIBOOT_DIR @ ''/'' @ rid @ ''/mdm.img'' \<or>
         image_path f = MULTIBOOT_DIR @ ''/'' @ rid @ ''/modem.img''"
proof (cases "readdir_names e (MULTIBOOT_DIR @ ''/'' @ rid)")
  case None
  with assms show ?thesis
    by (simp add: init_flashables_def add_extra_images_def Let_def new_flashable_def)
next
  case (Some names)
  with assms have "f \<in> set (add_extra_loop e (MULTIBOOT_DIR @ ''/'' @ rid) dirs names
      [new_flashable (MULTIBOOT_DIR @ ''/'' @ rid @ ''/boot.img'') bdev])"
    by (simp add: init_flashables_def add_extra_images_def Let_def)
  from add_extra_loop_paths [OF this] show ?thesis
    by (auto simp: new_flashable_def)
qed

lemma init_flashables_same_name:
  assumes "f \<in> set (init_flashables e rid bdev dirs)"
    and "g \<in> set (init_flashables e rid bdev dirs)"
    and "base_name (image_path g) = base_name (image_path f)"
  shows "image_path g = image_path f"
proof -
  have b: "base_name (MULTIBOOT_DIR @ CHR ''/'' # rid @ ''/boot.img'') = ''boot.img''"
    "base_name (MULTIBOOT_DIR @ CHR ''/'' # rid @ ''/mdm.img'') = ''mdm.img''"
    "base_name (MULTIBOOT_DIR @ CHR ''/'' # rid @ ''/modem.img'') = ''modem.img''"
    by (simp_all add: base_name_def)
  from init_flashables_paths [OF assms(1)] init_flashables_paths [OF assms(2)] assms(3)
  show ?thesis
    by (elim disjE) (simp_all add: b)
qed

section \<open>Splitting a trace at an event\<close>

lemma prefix_before_event:
  assumes "as @ bs = xs @ w # ys" and "w \<notin> set as"
  shows "set as \<subseteq> set xs"
proof -
  from assms(1) obtain us where
    "as = xs @ us \<and> us @ bs = w # ys \<or> as @ us = xs \<and> bs = us @ w # ys"
    by (auto simp: append_eq_append_conv2)
  then show ?thesis
  proof
    assume a: "as = xs @ us \<and> us @ bs = w # ys"
    with assms(2) have "us = []"
      by (cases us) auto
    with a show ?thesis by simp
  next
    assume "as @ us = xs \<and> bs = us @ w # ys"
    then show ?thesis by auto
  qed
qed

lemma no_write_no_split:
  "\<forall>p d ok. EvWriteData p d ok \<notin> set tr \<Longrightarrow> tr \<noteq> xs @ EvWriteData q b r # ys"
  by (metis in_set_conv_decomp)

lemma split_in_middle:
  assumes "a # tr1 @ rest = xs @ g # ys" and "g \<noteq> a" and "g \<notin> set rest"
  shows "\<exists>xs' ys'. xs = a # xs' \<and> tr1 = xs' @ g # ys'"
proof -
  from assms(1,2) obtain xs' where xs: "xs = a # xs'" and t: "tr1 @ rest = xs' @ g # ys"
    by (cases xs) auto
  from t obtain us where
    "tr1 = xs' @ us \<and> us @ rest = g # ys \<or> tr1 @ us = xs' \<and> rest = us @ g # ys"
    by (auto simp: append_eq_append_conv2)
  then show ?thesis
  proof
    assume c: "tr1 = xs' @ us \<and> us @ rest = g # ys"
    with assms(3) obtain us' where "us = g # us'"
      by (cases us) auto
    with c xs show ?thesis by auto
  next
    assume "tr1 @ us = xs' \<and> rest = us @ g # ys"
    with assms(3) show ?thesis by auto
  qed
qed

lemma split_append:
  assumes "as @ bs = xs @ g # ys"
  shows "(\<exists>ys'. as = xs @ g # ys') \<or> (\<exists>xs'. xs = as @ xs' \<and> bs = xs' @ g # ys)"
proof -
  from assms obtain us where
    "as = xs @ us \<and> us @ bs = g # ys \<or> as @ us = xs \<and> bs = us @ g # ys"
    by (auto simp: append_eq_append_conv2)
  then show ?thesis
  proof
    assume c: "as = xs @ us \<and> us @ bs = g # ys"
    show ?thesis
    proof (cases us)
      case Nil
      with c show ?thesis by auto
    next
      case (Cons u us')
      with c show ?thesis by auto
    qed
  next
    assume "as @ us = xs \<and> bs = us @ g # ys"
    then show ?thesis by auto
  qed
qed

section \<open>The loops of switch_rom\<close>

lemma missing_loop_iff: "missing_loop fl \<longleftrightarrow> (\<exists>f \<in> set fl. expected_hash f = [])"
  by (induction fl) auto

lemma read_verify_loop_no_write:
  "read_verify_loop e rid force props fl = (r, fl', props', tr) \<Longrightarrow> EvWriteData p d ok \<notin> set tr"
  by (induction fl arbitrary: props r fl' props' tr)
     (auto simp: Let_def split: option.splits prod.splits if_splits)

lemma read_verify_loop_read_fail:
  "read_verify_loop e rid force props fl = (r, fl', props', tr) \<Longrightarrow>
   EvReadAll p None \<in> set tr \<Longrightarrow> r = Some FAILED"
  by (induction fl arbitrary: props r fl' props' tr)
     (auto simp: Let_def split: option.splits prod.splits if_splits)

lemma read_verify_loop_pass:
  "read_verify_loop e rid force props fl = (None, fl', props', tr) \<Longrightarrow>
   list_all2 (\<lambda>f f'. \<exists>buf. file_read_all e (image_path f) = Some buf \<and>
       image_path f' = image_path f \<and> block_dev f' = block_dev f \<and> data f' = buf \<and>
       hash f' = sha512_hex e buf \<and>
       EvReadAll (image_path f) (Some buf) \<in> set tr \<and>
       (expected_hash f' = expected_hash f \<or>
        expected_hash f' = sha512_hex e buf \<and>
        EvChecksumsGet rid (base_name (image_path f)) FOUND (sha512_hex e buf) \<in> set tr))
     fl fl'"
proof (induction fl arbitrary: props fl' props' tr)
  case Nil
  then show ?case by simp
next
  case (Cons f fs)
  from Cons.prems obtain buf where buf: "file_read_all e (image_path f) = Some buf"
    by (auto split: option.splits)
  define h where "h = sha512_hex e buf"
  define img where "img = base_name (image_path f)"
  define props1 where
    "props1 = (if force then checksums_update props rid img h else props)"
  define got where "got = checksums_get props1 rid img (expected_hash f)"
  define f3 where "f3 = f\<lparr>data := buf, hash := h, expected_hash := snd got\<rparr>"
  define blk where
    "blk = [EvReadAll (image_path f) (Some buf), EvSHA512 buf] @
           (if force then [EvChecksumsUpdate rid img h] else []) @
           [EvChecksumsGet rid img (fst got) (snd got)]"
  from Cons.prems buf obtain fs' tr' where
    rec: "read_verify_loop e rid force props1 fs = (None, fs', props', tr')"
    and fl': "fl' = f3 # fs'" and tr: "tr = blk @ tr'"
    and ok: "fst got \<noteq> MALFORMED" "\<not> (fst got = FOUND \<and> snd got \<noteq> h)"
    by (auto simp: Let_def h_def img_def props1_def got_def f3_def blk_def
        split: prod.splits if_splits)
  have tail: "list_all2 (\<lambda>f f'. \<exists>buf. file_read_all e (image_path f) = Some buf \<and>
       image_path f' = image_path f \<and> block_dev f' = block_dev f \<and> data f' = buf \<and>
       hash f' = sha512_hex e buf \<and>
       EvReadAll (image_path f) (Some buf) \<in> set tr \<and>
       (expected_hash f' = expected_hash f \<or>
        expected_hash f' = sha512_hex e buf \<and>
        EvChecksumsGet rid (base_name (image_path f)) FOUND (sha512_hex e buf) \<in> set tr))
     fs fs'"
    by (rule list_all2_mono [OF Cons.IH [OF rec]]) (auto simp: tr)
  have exp: "snd got = expected_hash f \<or> fst got = FOUND \<and> snd got = h"
    using ok checksums_get_out [of props1 rid img "expected_hash f" "fst got" "snd got"]
    by (cases "fst got") (auto simp: got_def)
  have head: "\<exists>b. file_read_all e (image_path f) = Some b \<and>
       image_path f3 = image_path f \<and> block_dev f3 = block_dev f \<and> data f3 = b \<and>
       hash f3 = sha512_hex e b \<and>
       EvReadAll (image_path f) (Some b) \<in> set tr \<and>
       (expected_hash f3 = expected_hash f \<or>
        expected_hash f3 = sha512_hex e b \<and>
        EvChecksumsGet rid (base_name (image_path f)) FOUND (sha512_hex e b) \<in> set tr)"
    using buf exp by (auto simp: f3_def tr blk_def h_def img_def)
  show ?case
    unfolding fl' using head tail by simp
qed

lemma read_verify_loop_verified:
  assumes rv: "read_verify_loop e rid force props fl = (None, fl', props', tr)"
    and nm: "\<not> missing_loop fl'"
    and init: "\<forall>f \<in> set fl. expected_hash f = []"
    and f: "f \<in> set fl"
  shows "\<exists>buf. file_read_all e (image_path f) = Some buf \<and>
           EvReadAll (image_path f) (Some buf) \<in> set tr \<and>
           EvChecksumsGet rid (base_name (image_path f)) FOUND (sha512_hex e buf) \<in> set tr"
proof -
  from f obtain i where i: "i < length fl" "fl ! i = f"
    by (auto simp: in_set_conv_nth)
  from read_verify_loop_pass [OF rv] i have len: "i < length fl'"
    and p: "\<exists>buf. file_read_all e (image_path f) = Some buf \<and>
       EvReadAll (image_path f) (Some buf) \<in> set tr \<and>
       (expected_hash (fl' ! i) = expected_hash f \<or>
        expected_hash (fl' ! i) = sha512_hex e buf \<and>
        EvChecksumsGet rid (base_name (image_path f)) FOUND (sha512_hex e buf) \<in> set tr)"
    by (auto simp: list_all2_conv_all_nth)
  from nm len have "expected_hash (fl' ! i) \<noteq> []"
    by (auto simp: missing_loop_iff)
  with init f p show ?thesis by auto
qed

lemma read_verify_loop_force:
  "read_verify_loop e rid True props fl = (r, fl', props', tr) \<Longrightarrow>
   (r = None \<or> r = Some FAILED) \<and>
   (r = None \<longrightarrow> \<not> missing_loop fl') \<and>
   (\<forall>i m ret out. EvChecksumsGet i m ret out \<in> set tr \<longrightarrow>
      ret = FOUND \<and> (\<exists>buf. out = sha512_hex e buf \<and> EvChecksumsUpdate i m out \<in> set tr))"
proof (induction fl arbitrary: props r fl' props' tr)
  case Nil
  then show ?case by simp
next
  case (Cons f fs)
  show ?case
  proof (cases "file_read_all e (image_path f)")
    case None
    with Cons.prems show ?thesis by auto
  next
    case (Some buf)
    define h where "h = sha512_hex e buf"
    define img where "img = base_name (image_path f)"
    define props1 where "props1 = checksums_update props rid img h"
    have got: "checksums_get props1 rid img (expected_hash f) = (FOUND, h)"
      unfolding props1_def by (rule checksums_get_after_update)
    obtain r2 fs2 props2 tr2 where
      rec: "read_verify_loop e rid True props1 fs = (r2, fs2, props2, tr2)"
      by (cases "read_verify_loop e rid True props1 fs") auto
    from Cons.prems Some got rec have
      res: "r = r2" "fl' = f\<lparr>data := buf, hash := h, expected_hash := h\<rparr> # fs2"
        "tr = [EvReadAll (image_path f) (Some buf), EvSHA512 buf,
               EvChecksumsUpdate rid img h, EvChecksumsGet rid img FOUND h] @ tr2"
      by (auto simp: Let_def h_def img_def props1_def)
    have hne: "h \<noteq> []"
      unfolding h_def by (rule sha512_hex_not_Nil)
    from Cons.IH [OF rec] show ?thesis
      unfolding res using hne by (auto simp: h_def)
  qed
qed

lemma read_verify_loop_force_readable:
  "\<forall>f \<in> set fl. file_read_all e (image_path f) \<noteq> None \<Longrightarrow>
   fst (read_verify_loop e rid True props fl) = None"
proof (induction fl arbitrary: props)
  case Nil
  then show ?case by simp
next
  case (Cons f fs)
  from Cons.prems obtain buf where buf: "file_read_all e (image_path f) = Some buf"
    by auto
  have rec: "fst (read_verify_loop e rid True
      (checksums_update props rid (base_name (image_path f)) (sha512_hex e buf)) fs) = None"
    using Cons.prems by (intro Cons.IH) simp
  obtain r2 fs2 p2 t2 where rec2: "read_verify_loop e rid True
      (checksums_update props rid (base_name (image_path f)) (sha512_hex e buf)) fs =
      (r2, fs2, p2, t2)"
    by (cases "read_verify_loop e rid True
      (checksums_update props rid (base_name (image_path f)) (sha512_hex e buf)) fs") auto
  with rec have "r2 = None"
    by simp
  with buf rec2 show ?case
    by (simp add: Let_def checksums_get_after_update)
qed

lemma read_verify_loop_force_props:
  assumes "read_verify_loop e rid True props fl = (None, fl', props', tr)"
  shows "(\<forall>k. k \<notin> (\<lambda>f. rid @ ''/'' @ base_name (image_path f)) ` set fl \<longrightarrow> props' k = props k) \<and>
     (\<forall>f \<in> set fl. \<exists>g \<in> set fl. base_name (image_path g) = base_name (image_path f) \<and>
        props' (rid @ ''/'' @ base_name (image_path f)) =
          Some (''sha512:'' @ sha512_hex e (the (file_read_all e (image_path g)))))"
  using assms
proof (induction fl arbitrary: props fl' props' tr)
  case Nil
  then show ?case by simp
next
  case (Cons f fs)
  from Cons.prems obtain buf where buf: "file_read_all e (image_path f) = Some buf"
    by (auto split: option.splits)
  define key :: "Flashable \<Rightarrow> string"
    where "key = (\<lambda>f. rid @ ''/'' @ base_name (image_path f))"
  define props1 where "props1 = props(key f \<mapsto> ''sha512:'' @ sha512_hex e buf)"
  have got: "checksums_get props1 rid (base_name (image_path f)) (expected_hash f) =
      (FOUND, sha512_hex e buf)"
    unfolding props1_def key_def
    using checksums_get_after_update [of props rid "base_name (image_path f)" "sha512_hex e buf"]
    by (simp add: checksums_update_eq)
  from Cons.prems buf got obtain fs' tr' where
    rec: "read_verify_loop e rid True props1 fs = (None, fs', props', tr')"
    by (auto simp: Let_def checksums_update_eq props1_def key_def split: prod.splits if_splits)
  from Cons.IH [OF rec] have
    A: "\<forall>k. k \<notin> key ` set fs \<longrightarrow> props' k = props1 k"
    and B: "\<forall>f \<in> set fs. \<exists>g \<in> set fs. base_name (image_path g) = base_name (image_path f) \<and>
        props' (key f) = Some (''sha512:'' @ sha512_hex e (the (file_read_all e (image_path g))))"
    by (simp_all add: key_def)
  have keq: "key a = key b \<longleftrightarrow> base_name (image_path a) = base_name (image_path b)" for a b
    by (simp add: key_def)
  have head: "\<exists>g \<in> set (f # fs). base_name (image_path g) = base_name (image_path f) \<and>
        props' (key f) = Some (''sha512:'' @ sha512_hex e (the (file_read_all e (image_path g))))"
  proof (cases "key f \<in> key ` set fs")
    case True
    then obtain f2 where f2: "f2 \<in> set fs" "key f2 = key f"
      by auto
    with B obtain g where "g \<in> set fs" "base_name (image_path g) = base_name (image_path f2)"
      "props' (key f2) = Some (''sha512:'' @ sha512_hex e (the (file_read_all e (image_path g))))"
      by blast
    with f2 keq [of f2 f] show ?thesis
      by auto
  next
    case False
    with A have "props' (key f) = props1 (key f)"
      by blast
    with buf show ?thesis
      by (auto simp: props1_def)
  qed
  have frame: "\<forall>k. k \<notin> key ` set (f # fs) \<longrightarrow> props' k = props k"
    using A by (auto simp: props1_def)
  have tail: "\<forall>x \<in> set fs. \<exists>g \<in> set (f # fs).
        base_name (image_path g) = base_name (image_path x) \<and>
        props' (key x) = Some (''sha512:'' @ sha512_hex e (the (file_read_all e (image_path g))))"
    using B by auto
  from frame head tail show ?case
    by (simp add: key_def)
qed

lemma read_verify_loop_invalid:
  assumes "\<forall>f \<in> set fl. file_read_all e (image_path f) \<noteq> None"
    and "g \<in> set fl"
    and "props (rid @ ''/'' @ base_name (image_path g)) = Some v"
    and "v \<noteq> ''sha512:'' @ sha512_hex e (the (file_read_all e (image_path g)))"
  shows "fst (read_verify_loop e rid False props fl) = Some CHECKSUM_INVALID"
  using assms
proof (induction fl)
  case Nil
  then show ?case by simp
next
  case (Cons f fs)
  from Cons.prems(1) obtain buf where buf: "file_read_all e (image_path f) = Some buf"
    by auto
  define got where
    "got = checksums_get props rid (base_name (image_path f)) (expected_hash f)"
  show ?case
  proof (cases "fst got = MALFORMED \<or> fst got = FOUND \<and> snd got \<noteq> sha512_hex e buf")
    case True
    then show ?thesis
      using buf by (auto simp: Let_def got_def)
  next
    case False
    have "g \<noteq> f"
    proof
      assume "g = f"
      with Cons.prems(3) have "fst got \<noteq> NOT_FOUND"
        using checksums_get_NOT_FOUND_iff
          [of props rid "base_name (image_path f)" "expected_hash f"]
        by (simp add: got_def)
      with False have "got = (FOUND, sha512_hex e buf)"
        by (cases "fst got") (auto simp: prod_eq_iff)
      then have "v = ''sha512:'' @ sha512_hex e buf"
        using checksums_get_FOUND_iff [of props rid "base_name (image_path f)" v
            "expected_hash f" "sha512_hex e buf"] Cons.prems(3) \<open>g = f\<close>
        by (simp add: got_def)
      with Cons.prems(4) buf \<open>g = f\<close> show False by simp
    qed
    with Cons.prems have "fst (read_verify_loop e rid False props fs) = Some CHECKSUM_INVALID"
      by (intro Cons.IH) auto
    then show ?thesis
      using buf False by (auto simp: Let_def got_def split: prod.splits)
  qed
qed

lemma read_verify_loop_blocks:
  assumes "read_verify_loop e rid force props fl = (r, fl', props', tr)"
  shows "(tr = xs @ EvSHA512 buf # ys \<longrightarrow> (\<exists>zs p. xs = zs @ [EvReadAll p (Some buf)])) \<and>
     (tr = xs @ EvChecksumsGet i m ret out # ys \<longrightarrow>
        (\<exists>zs p b. m = base_name p \<and>
           xs = zs @ [EvReadAll p (Some b), EvSHA512 b] @
                (if force then [EvChecksumsUpdate i m (sha512_hex e b)] else []) \<and>
           (force \<longrightarrow> ret = FOUND \<and> out = sha512_hex e b)))"
  using assms
proof (induction fl arbitrary: props r fl' props' tr xs)
  case Nil
  then show ?case by simp
next
  case (Cons f fs)
  show ?case
  proof (cases "file_read_all e (image_path f)")
    case None
    with Cons.prems show ?thesis
      by (auto simp: Cons_eq_append_conv)
  next
    case (Some b)
    define h where "h = sha512_hex e b"
    define img where "img = base_name (image_path f)"
    define props1 where
      "props1 = (if force then checksums_update props rid img h else props)"
    define got where "got = checksums_get props1 rid img (expected_hash f)"
    define blk where
      "blk = [EvReadAll (image_path f) (Some b), EvSHA512 b] @
             (if force then [EvChecksumsUpdate rid img h] else []) @
             [EvChecksumsGet rid img (fst got) (snd got)]"
    have gotf: "force \<Longrightarrow> got = (FOUND, h)"
      unfolding got_def props1_def by (simp add: checksums_get_after_update)
    obtain r2 fs2 props2 tr2 where
      rec: "read_verify_loop e rid force props1 fs = (r2, fs2, props2, tr2)"
      by (cases "read_verify_loop e rid force props1 fs") auto
    from Cons.prems Some rec have tr: "tr = blk \<or> tr = blk @ tr2"
      by (auto simp: Let_def h_def img_def props1_def got_def blk_def split: if_splits)
    have inblk: "(blk = xs @ EvSHA512 buf # ys \<longrightarrow> (\<exists>zs p. xs = zs @ [EvReadAll p (Some buf)])) \<and>
     (blk = xs @ EvChecksumsGet i m ret out # ys \<longrightarrow>
        (\<exists>zs p b. m = base_name p \<and>
           xs = zs @ [EvReadAll p (Some b), EvSHA512 b] @
                (if force then [EvChecksumsUpdate i m (sha512_hex e b)] else []) \<and>
           (force \<longrightarrow> ret = FOUND \<and> out = sha512_hex e b)))" for xs ys
      using gotf by (auto simp: blk_def Cons_eq_append_conv h_def img_def)
    have intr2: "(tr2 = xs @ EvSHA512 buf # ys \<longrightarrow> (\<exists>zs p. xs = zs @ [EvReadAll p (Some buf)])) \<and>
     (tr2 = xs @ EvChecksumsGet i m ret out # ys \<longrightarrow>
        (\<exists>zs p b. m = base_name p \<and>
           xs = zs @ [EvReadAll p (Some b), EvSHA512 b] @
                (if force then [EvChecksumsUpdate i m (sha512_hex e b)] else []) \<and>
           (force \<longrightarrow> ret = FOUND \<and> out = sha512_hex e b)))" for xs
      by (rule Cons.IH [OF rec])
    have both: "(blk @ tr2 = xs @ EvSHA512 buf # ys \<longrightarrow>
        (\<exists>zs p. xs = zs @ [EvReadAll p (Some buf)])) \<and>
     (blk @ tr2 = xs @ EvChecksumsGet i m ret out # ys \<longrightarrow>
        (\<exists>zs p b. m = base_name p \<and>
           xs = zs @ [EvReadAll p (Some b), EvSHA512 b] @
                (if force then [EvChecksumsUpdate i m (sha512_hex e b)] else []) \<and>
           (force \<longrightarrow> ret = FOUND \<and> out = sha512_hex e b)))"
    proof (intro conjI impI)
      assume "blk @ tr2 = xs @ EvSHA512 buf # ys"
      from split_append [OF this] show "\<exists>zs p. xs = zs @ [EvReadAll p (Some buf)]"
      proof
        assume "\<exists>ys'. blk = xs @ EvSHA512 buf # ys'"
        with inblk show ?thesis by blast
      next
        assume "\<exists>xs'. xs = blk @ xs' \<and> tr2 = xs' @ EvSHA512 buf # ys"
        then obtain xs' where x: "xs = blk @ xs'" "tr2 = xs' @ EvSHA512 buf # ys"
          by blast
        with intr2 obtain zs p where "xs' = zs @ [EvReadAll p (Some buf)]"
          by blast
        with x have "xs = (blk @ zs) @ [EvReadAll p (Some buf)]"
          by simp
        then show ?thesis by blast
      qed
    next
      assume "blk @ tr2 = xs @ EvChecksumsGet i m ret out # ys"
      from split_append [OF this] show "\<exists>zs p b. m = base_name p \<and>
           xs = zs @ [EvReadAll p (Some b), EvSHA512 b] @
                (if force then [EvChecksumsUpdate i m (sha512_hex e b)] else []) \<and>
           (force \<longrightarrow> ret = FOUND \<and> out = sha512_hex e b)"
      proof
        assume "\<exists>ys'. blk = xs @ EvChecksumsGet i m ret out # ys'"
        with inblk show ?thesis by blast
      next
        assume "\<exists>xs'. xs = blk @ xs' \<and> tr2 = xs' @ EvChecksumsGet i m ret out # ys"
        then obtain xs' where x: "xs = blk @ xs'" "tr2 = xs' @ EvChecksumsGet i m ret out # ys"
          by blast
        with intr2 obtain zs p b where z: "m = base_name p"
          "xs' = zs @ [EvReadAll p (Some b), EvSHA512 b] @
                (if force then [EvChecksumsUpdate i m (sha512_hex e b)] else [])"
          "force \<longrightarrow> ret = FOUND \<and> out = sha512_hex e b"
          by blast
        from x z have "xs = (blk @ zs) @ [EvReadAll p (Some b), EvSHA512 b] @
                (if force then [EvChecksumsUpdate i m (sha512_hex e b)] else [])"
          by simp
        with z show ?thesis by blast
      qed
    qed
    from tr show ?thesis
    proof
      assume "tr = blk"
      then show ?thesis using inblk [of xs ys] by simp
    next
      assume "tr = blk @ tr2"
      then show ?thesis using both by simp
    qed
  qed
qed

lemma flash_loop_ok:
  "flash_loop e fl = (True, tr) \<Longrightarrow>
   tr = map (\<lambda>f. EvWriteData (block_dev f) (data f) True) fl \<and>
   (\<forall>f \<in> set fl. file_write_data_ok e (block_dev f))"
  by (induction fl arbitrary: tr) (auto split: if_splits prod.splits)

lemma flash_loop_all_ok:
  "\<forall>f \<in> set fl. file_write_data_ok e (block_dev f) \<Longrightarrow> fst (flash_loop e fl) = True"
  by (induction fl) (auto split: prod.splits)

lemma flash_loop_only_writes:
  "flash_loop e fl = (ok, tr) \<Longrightarrow> ev \<in> set tr \<Longrightarrow>
   \<exists>f b. f \<in> set fl \<and> ev = EvWriteData (block_dev f) (data f) b"
proof (induction fl arbitrary: ok tr)
  case Nil
  then show ?case by simp
next
  case (Cons g gs)
  show ?case
  proof (cases "file_write_data_ok e (block_dev g)")
    case False
    with Cons.prems have "ev = EvWriteData (block_dev g) (data g) False"
      by auto
    then show ?thesis
      by (metis list.set_intros(1))
  next
    case True
    obtain ok2 tr2 where rec: "flash_loop e gs = (ok2, tr2)"
      by (cases "flash_loop e gs") auto
    with True Cons.prems have "ev = EvWriteData (block_dev g) (data g) True \<or> ev \<in> set tr2"
      by auto
    then show ?thesis
    proof
      assume "ev = EvWriteData (block_dev g) (data g) True"
      then show ?thesis
        by (metis list.set_intros(1))
    next
      assume "ev \<in> set tr2"
      from Cons.IH [OF rec this] show ?thesis
        by (metis list.set_intros(2))
    qed
  qed
qed

section \<open>The paths through switch_rom\<close>

lemma switch_rom_cases [case_names invalid early missing flash]:
  assumes "\<not> (find_by_id e rid \<and> mkdir_recursive_ok e (MULTIBOOT_DIR @ ''/'' @ rid)) \<Longrightarrow>
      switch_rom e rid bdev dirs force = (FAILED, []) \<Longrightarrow> P"
    and "\<And>r fl props1 tr1.
      find_by_id e rid \<Longrightarrow> mkdir_recursive_ok e (MULTIBOOT_DIR @ ''/'' @ rid) \<Longrightarrow>
      read_verify_loop e rid force (snd (checksums_read e Map.empty))
        (init_flashables e rid bdev dirs) = (Some r, fl, props1, tr1) \<Longrightarrow>
      switch_rom e rid bdev dirs force =
        (r, EvChecksumsRead (snd (checksums_read e Map.empty)) # tr1) \<Longrightarrow> P"
    and "\<And>fl props1 tr1.
      find_by_id e rid \<Longrightarrow> mkdir_recursive_ok e (MULTIBOOT_DIR @ ''/'' @ rid) \<Longrightarrow>
      read_verify_loop e rid force (snd (checksums_read e Map.empty))
        (init_flashables e rid bdev dirs) = (None, fl, props1, tr1) \<Longrightarrow>
      missing_loop fl \<Longrightarrow>
      switch_rom e rid bdev dirs force =
        (CHECKSUM_NOT_FOUND, EvChecksumsRead (snd (checksums_read e Map.empty)) # tr1) \<Longrightarrow> P"
    and "\<And>fl props1 tr1 written tr2.
      find_by_id e rid \<Longrightarrow> mkdir_recursive_ok e (MULTIBOOT_DIR @ ''/'' @ rid) \<Longrightarrow>
      read_verify_loop e rid force (snd (checksums_read e Map.empty))
        (init_flashables e rid bdev dirs) = (None, fl, props1, tr1) \<Longrightarrow>
      \<not> missing_loop fl \<Longrightarrow>
      flash_loop e fl = (written, tr2) \<Longrightarrow>
      switch_rom e rid bdev dirs force =
        (if \<not> written then FAILED else if \<not> fix_permissions e then FAILED else SUCCEEDED,
         EvChecksumsRead (snd (checksums_read e Map.empty)) # tr1 @ tr2 @
         (if written then
            (if force then [EvChecksumsWrite props1 (checksums_write e props1)] else []) @
            [EvFixPermissions (fix_permissions e)]
          else [])) \<Longrightarrow> P"
  shows P
proof (cases "find_by_id e rid \<and> mkdir_recursive_ok e (MULTIBOOT_DIR @ ''/'' @ rid)")
  case False
  then have "switch_rom e rid bdev dirs force = (FAILED, [])"
    by (auto simp: switch_rom_def Let_def)
  with False assms(1) show ?thesis by blast
next
  case True
  obtain r fl props1 tr1 where
    rv: "read_verify_loop e rid force (snd (checksums_read e Map.empty))
          (init_flashables e rid bdev dirs) = (r, fl, props1, tr1)"
    by (cases "read_verify_loop e rid force (snd (checksums_read e Map.empty))
          (init_flashables e rid bdev dirs)") auto
  obtain written tr2 where fw: "flash_loop e fl = (written, tr2)"
    by (cases "flash_loop e fl") auto
  show ?thesis
  proof (cases r)
    case (Some res)
    with True rv show ?thesis
      by (intro assms(2) [of res fl props1 tr1]) (simp_all add: switch_rom_def Let_def)
  next
    case None
    show ?thesis
    proof (cases "missing_loop fl")
      case m: True
      with True rv None show ?thesis
        by (intro assms(3) [of fl props1 tr1]) (simp_all add: switch_rom_def Let_def)
    next
      case m: False
      with True rv None fw show ?thesis
        by (intro assms(4) [of fl props1 tr1 written tr2])
           (simp_all add: switch_rom_def Let_def)
    qed
  qed
qed

lemma switch_rom_trace_shape:
  "\<exists>r fl' props' tr1 rest.
     read_verify_loop e rid force (snd (checksums_read e Map.empty))
       (init_flashables e rid bdev dirs) = (r, fl', props', tr1) \<and>
     (snd (switch_rom e rid bdev dirs force) = [] \<or>
      snd (switch_rom e rid bdev dirs force) =
        EvChecksumsRead (snd (checksums_read e Map.empty)) # tr1 @ rest) \<and>
     (\<forall>buf. EvSHA512 buf \<notin> set rest) \<and>
     (\<forall>i m ret out. EvChecksumsGet i m ret out \<notin> set rest)"
proof (cases e rid bdev dirs force rule: switch_rom_cases)
  case invalid
  obtain r fl' props' tr1 where
    "read_verify_loop e rid force (snd (checksums_read e Map.empty))
       (init_flashables e rid bdev dirs) = (r, fl', props', tr1)"
    by (cases "read_verify_loop e rid force (snd (checksums_read e Map.empty))
       (init_flashables e rid bdev dirs)") auto
  with invalid show ?thesis
    by (intro exI [of _ r] exI [of _ fl'] exI [of _ props'] exI [of _ tr1] exI [of _ "[]"]) simp
next
  case (early r fl props1 tr1)
  then show ?thesis
    by (intro exI [of _ "Some r"] exI [of _ fl] exI [of _ props1] exI [of _ tr1] exI [of _ "[]"])
       simp
next
  case (missing fl props1 tr1)
  then show ?thesis
    by (intro exI [of _ None] exI [of _ fl] exI [of _ props1] exI [of _ tr1] exI [of _ "[]"])
       simp
next
  case (flash fl props1 tr1 written tr2)
  let ?rest = "tr2 @ (if written then
            (if force then [EvChecksumsWrite props1 (checksums_write e props1)] else []) @
            [EvFixPermissions (fix_permissions e)]
          else [])"
  have "EvSHA512 buf \<notin> set ?rest" for buf
    using flash_loop_only_writes [OF flash(5), of "EvSHA512 buf"] by auto
  moreover have "EvChecksumsGet i m ret out \<notin> set ?rest" for i m ret out
    using flash_loop_only_writes [OF flash(5), of "EvChecksumsGet i m ret out"] by auto
  ultimately show ?thesis
    using flash
    by (intro exI [of _ None] exI [of _ fl] exI [of _ props1] exI [of _ tr1] exI [of _ ?rest])
       simp
qed

lemma switch_rom_split_verify:
  assumes "snd (switch_rom e rid bdev dirs force) = xs @ g # ys"
    and "(\<exists>buf. g = EvSHA512 buf) \<or> (\<exists>i m ret out. g = EvChecksumsGet i m ret out)"
  obtains r fl' props' tr1 xs' ys' where
    "read_verify_loop e rid force (snd (checksums_read e Map.empty))
       (init_flashables e rid bdev dirs) = (r, fl', props', tr1)"
    "xs = EvChecksumsRead (snd (checksums_read e Map.empty)) # xs'"
    "tr1 = xs' @ g # ys'"
proof -
  obtain r fl' props' tr1 rest where
    rv: "read_verify_loop e rid force (snd (checksums_read e Map.empty))
       (init_flashables e rid bdev dirs) = (r, fl', props', tr1)"
    and sh: "snd (switch_rom e rid bdev dirs force) = [] \<or>
     snd (switch_rom e rid bdev dirs force) =
       EvChecksumsRead (snd (checksums_read e Map.empty)) # tr1 @ rest"
    and n1: "\<And>buf. EvSHA512 buf \<notin> set rest"
    and n2: "\<And>i m ret out. EvChecksumsGet i m ret out \<notin> set rest"
    using switch_rom_trace_shape [of e rid force bdev dirs] by blast
  from sh assms(1) have eq: "EvChecksumsRead (snd (checksums_read e Map.empty)) # tr1 @ rest =
      xs @ g # ys"
    by auto
  from assms(2) n1 n2 have "g \<noteq> EvChecksumsRead (snd (checksums_read e Map.empty))"
    "g \<notin> set rest"
    by auto
  from split_in_middle [OF eq this] rv show ?thesis
    using that by blast
qed

section \<open>Runs in the concrete environment\<close>

lemma init_flashables_example:
  "init_flashables example_env ''r'' ''/dev/boot'' [''/a'', ''/b''] =
     [new_flashable ''/data/media/0/MultiBoot/r/boot.img'' ''/dev/boot'',
      new_flashable ''/data/media/0/MultiBoot/r/modem.img'' ''/b/modem'']"
  by (simp add: init_flashables_def add_extra_images_def example_env_def MULTIBOOT_DIR_def
      ends_with_def starts_with_def substr_def find_block_dev_def Let_def)

lemma init_flashables_boot_mismatch:
  "init_flashables env_boot_mismatch ''r'' ''/dev/boot'' [''/a'', ''/b''] =
     [new_flashable ''/data/media/0/MultiBoot/r/boot.img'' ''/dev/boot'',
      new_flashable ''/data/media/0/MultiBoot/r/modem.img'' ''/b/modem'']"
  by (simp add: init_flashables_def add_extra_images_def env_boot_mismatch_def example_env_def
      MULTIBOOT_DIR_def ends_with_def starts_with_def substr_def find_block_dev_def Let_def)

lemma init_flashables_modem_malformed:
  "init_flashables env_modem_malformed ''r'' ''/dev/boot'' [''/a'', ''/b''] =
     [new_flashable ''/data/media/0/MultiBoot/r/boot.img'' ''/dev/boot'',
      new_flashable ''/data/media/0/MultiBoot/r/modem.img'' ''/b/modem'']"
  by (simp add: init_flashables_def add_extra_images_def env_modem_malformed_def example_env_def
      MULTIBOOT_DIR_def ends_with_def starts_with_def substr_def find_block_dev_def Let_def)

lemma switch_rom_example_force:
  "switch_rom example_env ''r'' ''/dev/boot'' [''/a'', ''/b''] True =
     (SUCCEEDED,
      [EvChecksumsRead Map.empty,
       EvReadAll ''/data/media/0/MultiBoot/r/boot.img'' (Some [1, 2]),
       EvSHA512 [1, 2],
       EvChecksumsUpdate ''r'' ''boot.img'' (sha512_hex example_env [1, 2]),
       EvChecksumsGet ''r'' ''boot.img'' FOUND (sha512_hex example_env [1, 2]),
       EvReadAll ''/data/media/0/MultiBoot/r/modem.img'' (Some [3]),
       EvSHA512 [3],
       EvChecksumsUpdate ''r'' ''modem.img'' (sha512_hex example_env [3]),
       EvChecksumsGet ''r'' ''modem.img'' FOUND (sha512_hex example_env [3])] @
      EvWriteData ''/dev/boot'' [1, 2] True #
      [EvWriteData ''/b/modem'' [3] True,
       EvChecksumsWrite
         (checksums_update
            (checksums_update Map.empty ''r'' ''boot.img'' (sha512_hex example_env [1, 2]))
            ''r'' ''modem.img'' (sha512_hex example_env [3])) True,
       EvFixPermissions True])"
  unfolding switch_rom_def init_flashables_example
  by (simp add: MULTIBOOT_DIR_def new_flashable_def find_by_id_def example_env_def
      checksums_read_def checksums_get_after_update base_name_def Let_def sha512_hex_not_Nil
      fix_permissions_def checksums_write_def)

lemma switch_rom_example_unreadable:
  "switch_rom (example_env\<lparr>file_read_all := (\<lambda>p. None)\<rparr>) ''r'' ''/dev/boot'' [''/a'', ''/b''] True =
     (FAILED,
      [EvChecksumsRead Map.empty,
       EvReadAll ''/data/media/0/MultiBoot/r/boot.img'' None])"
proof -
  have i: "init_flashables (example_env\<lparr>file_read_all := (\<lambda>p. None)\<rparr>) ''r'' ''/dev/boot'' [''/a'', ''/b''] =
     [new_flashable ''/data/media/0/MultiBoot/r/boot.img'' ''/dev/boot'',
      new_flashable ''/data/media/0/MultiBoot/r/modem.img'' ''/b/modem'']"
    by (simp add: init_flashables_def add_extra_images_def example_env_def MULTIBOOT_DIR_def
        ends_with_def starts_with_def substr_def find_block_dev_def Let_def)
  show ?thesis
    unfolding switch_rom_def i
    by (simp add: MULTIBOOT_DIR_def new_flashable_def find_by_id_def example_env_def
        checksums_read_def Let_def)
qed

lemma switch_rom_example_malformed_force:
  "switch_rom env_modem_malformed ''r'' ''/dev/boot'' [''/a'', ''/b''] True =
     (SUCCEEDED,
      [EvChecksumsRead [''r/modem.img'' \<mapsto> ''md5:00''],
       EvReadAll ''/data/media/0/MultiBoot/r/boot.img'' (Some [1, 2]),
       EvSHA512 [1, 2],
       EvChecksumsUpdate ''r'' ''boot.img'' (sha512_hex example_env [1, 2]),
       EvChecksumsGet ''r'' ''boot.img'' FOUND (sha512_hex example_env [1, 2]),
       EvReadAll ''/data/media/0/MultiBoot/r/modem.img'' (Some [3]),
       EvSHA512 [3],
       EvChecksumsUpdate ''r'' ''modem.img'' (sha512_hex example_env [3])] @
      EvChecksumsGet ''r'' ''modem.img'' FOUND (sha512_hex example_env [3]) #
      [EvWriteData ''/dev/boot'' [1, 2] True,
       EvWriteData ''/b/modem'' [3] True,
       EvChecksumsWrite
         (checksums_update
            (checksums_update [''r/modem.img'' \<mapsto> ''md5:00''] ''r'' ''boot.img''
               (sha512_hex example_env [1, 2]))
            ''r'' ''modem.img'' (sha512_hex example_env [3])) True,
       EvFixPermissions True])"
  unfolding switch_rom_def init_flashables_modem_malformed
  by (simp add: MULTIBOOT_DIR_def new_flashable_def find_by_id_def env_modem_malformed_def
      example_env_def checksums_read_def checksums_get_after_update base_name_def Let_def
      sha512_hex_not_Nil fix_permissions_def checksums_write_def)

lemma set_kernel_example:
  "set_kernel env_modem_malformed ''r'' ''/dev/boot'' =
     (True,
      [EvReadAll ''/dev/boot'' (Some [4]),
       EvSHA512 [4],
       EvChecksumsRead [''r/modem.img'' \<mapsto> ''md5:00''],
       EvChecksumsUpdate ''r'' ''boot.img'' (sha512_hex example_env [4]),
       EvWriteData ''/data/media/0/MultiBoot/r/boot.img'' [4] True,
       EvChecksumsWrite
         (checksums_update [''r/modem.img'' \<mapsto> ''md5:00''] ''r'' ''boot.img''
            (sha512_hex example_env [4])) True,
       EvFixPermissions True])"
  by (simp add: set_kernel_def MULTIBOOT_DIR_def find_by_id_def env_modem_malformed_def
      example_env_def checksums_read_def Let_def fix_permissions_def checksums_write_def)

section \<open>Reading and verifying come before flashing\<close>

lemma switch_rom_flash_order:
  "(\<forall>xs p d ok ys. snd (switch_rom e rid bdev dirs force) = xs @ EvWriteData p d ok # ys \<longrightarrow>
      (\<forall>f \<in> set (init_flashables e rid bdev dirs).
         \<exists>buf. file_read_all e (image_path f) = Some buf \<and>
           EvReadAll (image_path f) (Some buf) \<in> set xs \<and>
           EvChecksumsGet rid (base_name (image_path f)) FOUND (sha512_hex e buf) \<in> set xs)) \<and>
   (\<forall>p. EvReadAll p None \<in> set (snd (switch_rom e rid bdev dirs force)) \<longrightarrow>
      fst (switch_rom e rid bdev dirs force) = FAILED \<and>
      (\<forall>q d ok. EvWriteData q d ok \<notin> set (snd (switch_rom e rid bdev dirs force))))"
proof (cases e rid bdev dirs force rule: switch_rom_cases)
  case invalid
  then show ?thesis by simp
next
  case (early r fl props1 tr1)
  have nw: "\<forall>p d ok. EvWriteData p d ok \<notin> set (snd (switch_rom e rid bdev dirs force))"
    using read_verify_loop_no_write [OF early(3)] early(4) by simp
  have "fst (switch_rom e rid bdev dirs force) = FAILED"
    if "EvReadAll p None \<in> set (snd (switch_rom e rid bdev dirs force))" for p
    using that read_verify_loop_read_fail [OF early(3), of p] early(4) by simp
  with nw no_write_no_split [OF nw] show ?thesis by blast
next
  case (missing fl props1 tr1)
  have nw: "\<forall>p d ok. EvWriteData p d ok \<notin> set (snd (switch_rom e rid bdev dirs force))"
    using read_verify_loop_no_write [OF missing(3)] missing(5) by simp
  have "EvReadAll p None \<notin> set (snd (switch_rom e rid bdev dirs force))" for p
    using read_verify_loop_read_fail [OF missing(3), of p] missing(5) by auto
  with nw no_write_no_split [OF nw] show ?thesis by blast
next
  case (flash fl props1 tr1 written tr2)
  let ?E = "EvChecksumsRead (snd (checksums_read e Map.empty))"
  let ?rest = "tr2 @ (if written then
            (if force then [EvChecksumsWrite props1 (checksums_write e props1)] else []) @
            [EvFixPermissions (fix_permissions e)]
          else [])"
  have tr: "snd (switch_rom e rid bdev dirs force) = (?E # tr1) @ ?rest"
    using flash(6) by simp
  have nofail: "EvReadAll p None \<notin> set (snd (switch_rom e rid bdev dirs force))" for p
    using read_verify_loop_read_fail [OF flash(3), of p] flash_loop_only_writes [OF flash(5)]
    unfolding tr by (auto split: if_splits)
  have "\<exists>buf. file_read_all e (image_path f) = Some buf \<and>
           EvReadAll (image_path f) (Some buf) \<in> set xs \<and>
           EvChecksumsGet rid (base_name (image_path f)) FOUND (sha512_hex e buf) \<in> set xs"
    if dec: "snd (switch_rom e rid bdev dirs force) = xs @ EvWriteData p d ok # ys"
      and f: "f \<in> set (init_flashables e rid bdev dirs)" for xs p d ok ys f
  proof -
    have "EvWriteData p d ok \<notin> set (?E # tr1)"
      using read_verify_loop_no_write [OF flash(3)] by simp
    with dec have sub: "set (?E # tr1) \<subseteq> set xs"
      unfolding tr by (rule prefix_before_event)
    from read_verify_loop_verified [OF flash(3) flash(4) _ f] init_flashables_expected
    obtain buf where "file_read_all e (image_path f) = Some buf"
      "EvReadAll (image_path f) (Some buf) \<in> set tr1"
      "EvChecksumsGet rid (base_name (image_path f)) FOUND (sha512_hex e buf) \<in> set tr1"
      by blast
    with sub show ?thesis by auto
  qed
  with nofail show ?thesis by blast
qed

text \<open>
  C1. In every invocation of \<open>switch_rom\<close>, whenever a write to a block device
  appears in the trace, every Flashable of the image set (the boot image and the
  extra images) was read into memory before it, and the lookup of its checksum
  answered \<open>FOUND\<close> with the digest of the buffer read. If reading an image fails,
  the result is \<open>FAILED\<close> and the trace has no write to a block device at all; and
  when some image of the set cannot be read, nothing is written to a block device,
  whatever the result.
\<close>

theorem switch_rom_flash_after_read_and_verify:
  "(\<forall>xs p d ok ys. snd (switch_rom e rid bdev dirs force) = xs @ EvWriteData p d ok # ys \<longrightarrow>
      (\<forall>f \<in> set (init_flashables e rid bdev dirs).
         \<exists>buf. file_read_all e (image_path f) = Some buf \<and>
           EvReadAll (image_path f) (Some buf) \<in> set xs \<and>
           EvChecksumsGet rid (base_name (image_path f)) FOUND (sha512_hex e buf) \<in> set xs)) \<and>
   (\<forall>p. EvReadAll p None \<in> set (snd (switch_rom e rid bdev dirs force)) \<longrightarrow>
      fst (switch_rom e rid bdev dirs force) = FAILED \<and>
      (\<forall>q d ok. EvWriteData q d ok \<notin> set (snd (switch_rom e rid bdev dirs force)))) \<and>
   ((\<exists>f \<in> set (init_flashables e rid bdev dirs). file_read_all e (image_path f) = None) \<longrightarrow>
      (\<forall>q d ok. EvWriteData q d ok \<notin> set (snd (switch_rom e rid bdev dirs force))))"
proof -
  note order = switch_rom_flash_order [of e rid bdev dirs force]
  have "EvWriteData q d ok \<notin> set (snd (switch_rom e rid bdev dirs force))"
    if f: "f \<in> set (init_flashables e rid bdev dirs)"
      and none: "file_read_all e (image_path f) = None" for f q d ok
  proof
    assume "EvWriteData q d ok \<in> set (snd (switch_rom e rid bdev dirs force))"
    then obtain xs ys where
      "snd (switch_rom e rid bdev dirs force) = xs @ EvWriteData q d ok # ys"
      by (auto simp: in_set_conv_decomp)
    with order f have "\<exists>buf. file_read_all e (image_path f) = Some buf"
      by blast
    with none show False by simp
  qed
  then have "(\<exists>f \<in> set (init_flashables e rid bdev dirs). file_read_all e (image_path f) = None) \<longrightarrow>
      (\<forall>q d ok. EvWriteData q d ok \<notin> set (snd (switch_rom e rid bdev dirs force)))"
    by blast
  with order show ?thesis
    by simp
qed

theorem switch_rom_flash_after_read_and_verify_witness:
  "(\<exists>buf. file_read_all example_env ''/data/media/0/MultiBoot/r/modem.img'' = Some buf \<and>
      EvReadAll ''/data/media/0/MultiBoot/r/modem.img'' (Some buf) \<in>
        set (takeWhile (\<lambda>ev. ev \<noteq> EvWriteData ''/dev/boot'' [1, 2] True)
          (snd (switch_rom example_env ''r'' ''/dev/boot'' [''/a'', ''/b''] True))) \<and>
      EvChecksumsGet ''r'' ''modem.img'' FOUND (sha512_hex example_env buf) \<in>
        set (takeWhile (\<lambda>ev. ev \<noteq> EvWriteData ''/dev/boot'' [1, 2] True)
          (snd (switch_rom example_env ''r'' ''/dev/boot'' [''/a'', ''/b''] True)))) \<and>
   EvReadAll ''/data/media/0/MultiBoot/r/boot.img'' None \<in>
     set (snd (switch_rom (example_env\<lparr>file_read_all := (\<lambda>p. None)\<rparr>)
                 ''r'' ''/dev/boot'' [''/a'', ''/b''] True)) \<and>
   fst (switch_rom (example_env\<lparr>file_read_all := (\<lambda>p. None)\<rparr>)
          ''r'' ''/dev/boot'' [''/a'', ''/b''] True) = FAILED"
proof -
  let ?pre = "[EvChecksumsRead Map.empty,
       EvReadAll ''/data/media/0/MultiBoot/r/boot.img'' (Some [1, 2]),
       EvSHA512 [1, 2],
       EvChecksumsUpdate ''r'' ''boot.img'' (sha512_hex example_env [1, 2]),
       EvChecksumsGet ''r'' ''boot.img'' FOUND (sha512_hex example_env [1, 2]),
       EvReadAll ''/data/media/0/MultiBoot/r/modem.img'' (Some [3]),
       EvSHA512 [3],
       EvChecksumsUpdate ''r'' ''modem.img'' (sha512_hex example_env [3]),
       EvChecksumsGet ''r'' ''modem.img'' FOUND (sha512_hex example_env [3])]"
  have pre: "takeWhile (\<lambda>ev. ev \<noteq> EvWriteData ''/dev/boot'' [1, 2] True)
      (snd (switch_rom example_env ''r'' ''/dev/boot'' [''/a'', ''/b''] True)) = ?pre"
    unfolding switch_rom_example_force by simp
  have mem: "new_flashable ''/data/media/0/MultiBoot/r/modem.img'' ''/b/modem'' \<in>
      set (init_flashables example_env ''r'' ''/dev/boot'' [''/a'', ''/b''])"
    unfolding init_flashables_example by simp
  have dec: "snd (switch_rom example_env ''r'' ''/dev/boot'' [''/a'', ''/b''] True) =
      ?pre @ EvWriteData ''/dev/boot'' [1, 2] True #
        [EvWriteData ''/b/modem'' [3] True,
         EvChecksumsWrite
           (checksums_update
              (checksums_update Map.empty ''r'' ''boot.img'' (sha512_hex example_env [1, 2]))
              ''r'' ''modem.img'' (sha512_hex example_env [3])) True,
         EvFixPermissions True]"
    unfolding switch_rom_example_force by simp
  have fail: "EvReadAll ''/data/media/0/MultiBoot/r/boot.img'' None \<in>
     set (snd (switch_rom (example_env\<lparr>file_read_all := (\<lambda>p. None)\<rparr>)
                 ''r'' ''/dev/boot'' [''/a'', ''/b''] True))"
    unfolding switch_rom_example_unreadable by simp
  from switch_rom_flash_after_read_and_verify
    [of example_env "''r''" "''/dev/boot''" "[''/a'', ''/b'']" True,
     THEN conjunct1, THEN spec, THEN spec, THEN spec, THEN spec, THEN spec, THEN mp,
     OF dec, THEN bspec, OF mem]
  have "\<exists>buf. file_read_all example_env
          (image_path (new_flashable ''/data/media/0/MultiBoot/r/modem.img'' ''/b/modem'')) = Some buf \<and>
      EvReadAll (image_path (new_flashable ''/data/media/0/MultiBoot/r/modem.img'' ''/b/modem''))
        (Some buf) \<in> set ?pre \<and>
      EvChecksumsGet ''r''
        (base_name (image_path (new_flashable ''/data/media/0/MultiBoot/r/modem.img'' ''/b/modem'')))
        FOUND (sha512_hex example_env buf) \<in> set ?pre" .
  then have a: "\<exists>buf. file_read_all example_env ''/data/media/0/MultiBoot/r/modem.img'' = Some buf \<and>
      EvReadAll ''/data/media/0/MultiBoot/r/modem.img'' (Some buf) \<in> set ?pre \<and>
      EvChecksumsGet ''r'' ''modem.img'' FOUND (sha512_hex example_env buf) \<in> set ?pre"
    by (simp add: new_flashable_def base_name_def)
  from switch_rom_flash_after_read_and_verify
    [of "example_env\<lparr>file_read_all := (\<lambda>p. None)\<rparr>" "''r''" "''/dev/boot''" "[''/a'', ''/b'']" True,
     THEN conjunct2, THEN conjunct1, THEN spec, THEN mp, OF fail, THEN conjunct1]
  have b: "fst (switch_rom (example_env\<lparr>file_read_all := (\<lambda>p. None)\<rparr>)
          ''r'' ''/dev/boot'' [''/a'', ''/b''] True) = FAILED" .
  show ?thesis
    unfolding pre by (intro conjI a b fail)
qed

section \<open>An invalid checksum takes precedence over a missing one\<close>

text \<open>
  C2. Without \<open>force_update_checksums\<close>, for a valid ROM id whose directory exists and
  whose images can all be read: if some image of the set has a stored entry that is not
  \<open>sha512:\<close> followed by the digest of its bytes (a mismatch or a malformed value), the
  result is \<open>CHECKSUM_INVALID\<close>, wherever that image stands in the list and whether or
  not other images have no entry at all.
\<close>

theorem switch_rom_invalid_precedes_missing:
  assumes "find_by_id e rid"
    and "mkdir_recursive_ok e (MULTIBOOT_DIR @ ''/'' @ rid)"
    and "\<forall>f \<in> set (init_flashables e rid bdev dirs). file_read_all e (image_path f) \<noteq> None"
    and "g \<in> set (init_flashables e rid bdev dirs)"
    and "snd (checksums_read e Map.empty) (rid @ ''/'' @ base_name (image_path g)) = Some v"
    and "v \<noteq> ''sha512:'' @ sha512_hex e (the (file_read_all e (image_path g)))"
  shows "fst (switch_rom e rid bdev dirs False) = CHECKSUM_INVALID"
proof -
  have inv: "fst (read_verify_loop e rid False (snd (checksums_read e Map.empty))
      (init_flashables e rid bdev dirs)) = Some CHECKSUM_INVALID"
    using assms(3-6) by (rule read_verify_loop_invalid)
  show ?thesis
  proof (cases e rid bdev dirs False rule: switch_rom_cases)
    case invalid
    with assms(1,2) show ?thesis by simp
  next
    case (early r fl props1 tr1)
    with inv show ?thesis by simp
  next
    case (missing fl props1 tr1)
    with inv show ?thesis by simp
  next
    case (flash fl props1 tr1 written tr2)
    with inv show ?thesis by simp
  qed
qed

theorem switch_rom_invalid_precedes_missing_witness:
  "snd (checksums_read env_boot_mismatch Map.empty) ''r/modem.img'' = None \<and>
   fst (switch_rom env_boot_mismatch ''r'' ''/dev/boot'' [''/a'', ''/b''] False) =
     CHECKSUM_INVALID \<and>
   snd (checksums_read env_modem_malformed Map.empty) ''r/boot.img'' = None \<and>
   fst (switch_rom env_modem_malformed ''r'' ''/dev/boot'' [''/a'', ''/b''] False) =
     CHECKSUM_INVALID"
proof -
  have a1: "find_by_id env_boot_mismatch ''r''"
    by (simp add: find_by_id_def env_boot_mismatch_def example_env_def)
  have a2: "mkdir_recursive_ok env_boot_mismatch (MULTIBOOT_DIR @ ''/'' @ ''r'')"
    by (simp add: env_boot_mismatch_def example_env_def)
  have a3: "\<forall>f \<in> set (init_flashables env_boot_mismatch ''r'' ''/dev/boot'' [''/a'', ''/b'']).
      file_read_all env_boot_mismatch (image_path f) \<noteq> None"
    unfolding init_flashables_boot_mismatch
    by (simp add: new_flashable_def env_boot_mismatch_def example_env_def)
  have a4: "new_flashable ''/data/media/0/MultiBoot/r/boot.img'' ''/dev/boot'' \<in>
      set (init_flashables env_boot_mismatch ''r'' ''/dev/boot'' [''/a'', ''/b''])"
    unfolding init_flashables_boot_mismatch by simp
  have a5: "snd (checksums_read env_boot_mismatch Map.empty)
      (''r'' @ ''/'' @
       base_name (image_path (new_flashable ''/data/media/0/MultiBoot/r/boot.img'' ''/dev/boot''))) =
      Some ''sha512:''"
    by (simp add: checksums_read_def env_boot_mismatch_def example_env_def new_flashable_def
        base_name_def)
  have a6: "''sha512:'' \<noteq> ''sha512:'' @ sha512_hex env_boot_mismatch
      (the (file_read_all env_boot_mismatch
         (image_path (new_flashable ''/data/media/0/MultiBoot/r/boot.img'' ''/dev/boot''))))"
    using sha512_hex_not_Nil [THEN not_sym] by simp
  have b1: "find_by_id env_modem_malformed ''r''"
    by (simp add: find_by_id_def env_modem_malformed_def example_env_def)
  have b2: "mkdir_recursive_ok env_modem_malformed (MULTIBOOT_DIR @ ''/'' @ ''r'')"
    by (simp add: env_modem_malformed_def example_env_def)
  have b3: "\<forall>f \<in> set (init_flashables env_modem_malformed ''r'' ''/dev/boot'' [''/a'', ''/b'']).
      file_read_all env_modem_malformed (image_path f) \<noteq> None"
    unfolding init_flashables_modem_malformed
    by (simp add: new_flashable_def env_modem_malformed_def example_env_def)
  have b4: "new_flashable ''/data/media/0/MultiBoot/r/modem.img'' ''/b/modem'' \<in>
      set (init_flashables env_modem_malformed ''r'' ''/dev/boot'' [''/a'', ''/b''])"
    unfolding init_flashables_modem_malformed by simp
  have b5: "snd (checksums_read env_modem_malformed Map.empty)
      (''r'' @ ''/'' @
       base_name (image_path (new_flashable ''/data/media/0/MultiBoot/r/modem.img'' ''/b/modem''))) =
      Some ''md5:00''"
    by (simp add: checksums_read_def env_modem_malformed_def example_env_def new_flashable_def
        base_name_def)
  have b6: "''md5:00'' \<noteq> ''sha512:'' @ sha512_hex env_modem_malformed
      (the (file_read_all env_modem_malformed
         (image_path (new_flashable ''/data/media/0/MultiBoot/r/modem.img'' ''/b/modem''))))"
    by simp
  have c1: "snd (checksums_read env_boot_mismatch Map.empty) ''r/modem.img'' = None"
    by (simp add: checksums_read_def env_boot_mismatch_def example_env_def)
  have c2: "snd (checksums_read env_modem_malformed Map.empty) ''r/boot.img'' = None"
    by (simp add: checksums_read_def env_modem_malformed_def example_env_def)
  show ?thesis
    by (intro conjI c1 c2
        switch_rom_invalid_precedes_missing [OF a1 a2 a3 a4 a5 a6]
        switch_rom_invalid_precedes_missing [OF b1 b2 b3 b4 b5 b6])
qed

section \<open>The order of reading, hashing and looking up\<close>

text \<open>
  The read phase is not a phase of its own: in the example, with two images, the boot
  image is hashed and looked up before the modem image is read.
\<close>

theorem switch_rom_read_phase_counterexample:
  "\<not> read_phase_first
       (init_flashables example_env ''r'' ''/dev/boot'' [''/a'', ''/b''])
       (snd (switch_rom example_env ''r'' ''/dev/boot'' [''/a'', ''/b''] True)) \<and>
   init_flashables example_env ''r'' ''/dev/boot'' [''/a'', ''/b''] ! 1 =
     new_flashable ''/data/media/0/MultiBoot/r/modem.img'' ''/b/modem'' \<and>
   snd (switch_rom example_env ''r'' ''/dev/boot'' [''/a'', ''/b''] True) ! 2 =
     EvSHA512 [1, 2] \<and>
   snd (switch_rom example_env ''r'' ''/dev/boot'' [''/a'', ''/b''] True) ! 4 =
     EvChecksumsGet ''r'' ''boot.img'' FOUND (sha512_hex example_env [1, 2]) \<and>
   snd (switch_rom example_env ''r'' ''/dev/boot'' [''/a'', ''/b''] True) ! 5 =
     EvReadAll ''/data/media/0/MultiBoot/r/modem.img'' (Some [3])"
  unfolding switch_rom_example_force init_flashables_example
  by (simp add: read_phase_first_def new_flashable_def)

lemma switch_rom_hash_and_lookup_after_read:
  "(\<forall>xs buf ys. snd (switch_rom e rid bdev dirs force) = xs @ EvSHA512 buf # ys \<longrightarrow>
      (\<exists>zs p. xs = zs @ [EvReadAll p (Some buf)])) \<and>
   (\<forall>xs i m ret out ys.
      snd (switch_rom e rid bdev dirs force) = xs @ EvChecksumsGet i m ret out # ys \<longrightarrow>
      (\<exists>zs p buf. m = base_name p \<and>
         xs = zs @ [EvReadAll p (Some buf), EvSHA512 buf] @
              (if force then [EvChecksumsUpdate i m (sha512_hex e buf)] else [])))"
proof (intro conjI allI impI)
  fix xs buf ys
  assume dec: "snd (switch_rom e rid bdev dirs force) = xs @ EvSHA512 buf # ys"
  then obtain r fl' props' tr1 xs' ys' where
    rv: "read_verify_loop e rid force (snd (checksums_read e Map.empty))
       (init_flashables e rid bdev dirs) = (r, fl', props', tr1)"
    and xs: "xs = EvChecksumsRead (snd (checksums_read e Map.empty)) # xs'"
    and tr1: "tr1 = xs' @ EvSHA512 buf # ys'"
    by (rule switch_rom_split_verify) blast
  from read_verify_loop_blocks [OF rv, of xs' buf ys'] tr1
  obtain zs p where "xs' = zs @ [EvReadAll p (Some buf)]"
    by auto
  with xs have "xs = (EvChecksumsRead (snd (checksums_read e Map.empty)) # zs) @
      [EvReadAll p (Some buf)]"
    by simp
  then show "\<exists>zs p. xs = zs @ [EvReadAll p (Some buf)]" by blast
next
  fix xs i m ret out ys
  assume dec: "snd (switch_rom e rid bdev dirs force) = xs @ EvChecksumsGet i m ret out # ys"
  then obtain r fl' props' tr1 xs' ys' where
    rv: "read_verify_loop e rid force (snd (checksums_read e Map.empty))
       (init_flashables e rid bdev dirs) = (r, fl', props', tr1)"
    and xs: "xs = EvChecksumsRead (snd (checksums_read e Map.empty)) # xs'"
    and tr1: "tr1 = xs' @ EvChecksumsGet i m ret out # ys'"
    by (rule switch_rom_split_verify) blast
  from read_verify_loop_blocks [OF rv, of xs' _ ys' i m ret out] tr1
  obtain zs p b where z: "m = base_name p"
    "xs' = zs @ [EvReadAll p (Some b), EvSHA512 b] @
        (if force then [EvChecksumsUpdate i m (sha512_hex e b)] else [])"
    by auto
  with xs have "xs = (EvChecksumsRead (snd (checksums_read e Map.empty)) # zs) @
      [EvReadAll p (Some b), EvSHA512 b] @
        (if force then [EvChecksumsUpdate i m (sha512_hex e b)] else [])"
    by simp
  with z show "\<exists>zs p buf. m = base_name p \<and>
         xs = zs @ [EvReadAll p (Some buf), EvSHA512 buf] @
              (if force then [EvChecksumsUpdate i m (sha512_hex e buf)] else [])"
    by blast
qed

lemma read_paths_append: "read_paths (xs @ ys) = read_paths xs @ read_paths ys"
  by (induction xs rule: read_paths.induct) simp_all

lemma read_paths_no_read:
  "(\<And>p r. EvReadAll p r \<notin> set tr) \<Longrightarrow> read_paths tr = []"
  by (induction tr rule: read_paths.induct) auto

lemma read_verify_loop_read_paths:
  "read_verify_loop e rid force props fl = (r, fl', props', tr) \<Longrightarrow>
   \<exists>n \<le> length fl. read_paths tr = take n (map image_path fl)"
proof (induction fl arbitrary: props r fl' props' tr)
  case Nil
  then show ?case by simp
next
  case (Cons f fs)
  show ?case
  proof (cases "file_read_all e (image_path f)")
    case None
    with Cons.prems have "read_paths tr = take 1 (map image_path (f # fs))"
      by auto
    then show ?thesis
      by (intro exI [of _ 1]) simp
  next
    case (Some b)
    define h where "h = sha512_hex e b"
    define img where "img = base_name (image_path f)"
    define props1 where
      "props1 = (if force then checksums_update props rid img h else props)"
    define got where "got = checksums_get props1 rid img (expected_hash f)"
    define blk where
      "blk = [EvReadAll (image_path f) (Some b), EvSHA512 b] @
             (if force then [EvChecksumsUpdate rid img h] else []) @
             [EvChecksumsGet rid img (fst got) (snd got)]"
    have rb: "read_paths blk = [image_path f]"
      by (simp add: blk_def)
    obtain r2 fs2 props2 tr2 where
      rec: "read_verify_loop e rid force props1 fs = (r2, fs2, props2, tr2)"
      by (cases "read_verify_loop e rid force props1 fs") auto
    from Cons.prems Some rec have tr: "tr = blk \<or> tr = blk @ tr2"
      by (auto simp: Let_def h_def img_def props1_def got_def blk_def split: if_splits)
    from Cons.IH [OF rec] obtain n2 where
      n2: "n2 \<le> length fs" "read_paths tr2 = take n2 (map image_path fs)"
      by blast
    from tr show ?thesis
    proof
      assume "tr = blk"
      with rb have "read_paths tr = take 1 (map image_path (f # fs))"
        by simp
      then show ?thesis
        by (intro exI [of _ 1]) simp
    next
      assume "tr = blk @ tr2"
      with rb n2 have "read_paths tr = take (Suc n2) (map image_path (f # fs))"
        by (simp add: read_paths_append)
      with n2(1) show ?thesis
        by (intro exI [of _ "Suc n2"]) simp
    qed
  qed
qed

lemma read_verify_loop_read_after_pass:
  assumes "read_verify_loop e rid force props fl = (r, fl', props', tr)"
    and "tr = xs @ EvReadAll p rr # ys"
  shows "xs = [] \<or>
     (\<exists>zs q b ret out.
        xs = zs @ [EvReadAll q (Some b), EvSHA512 b] @
             (if force then [EvChecksumsUpdate rid (base_name q) (sha512_hex e b)] else []) @
             [EvChecksumsGet rid (base_name q) ret out] \<and>
        ret \<noteq> MALFORMED \<and> (ret = FOUND \<longrightarrow> out = sha512_hex e b))"
  using assms
proof (induction fl arbitrary: props r fl' props' tr xs)
  case Nil
  then show ?case by simp
next
  case (Cons f fs)
  show ?case
  proof (cases "file_read_all e (image_path f)")
    case None
    with Cons.prems show ?thesis
      by (auto simp: Cons_eq_append_conv)
  next
    case (Some b)
    define h where "h = sha512_hex e b"
    define img where "img = base_name (image_path f)"
    define props1 where
      "props1 = (if force then checksums_update props rid img h else props)"
    define got where "got = checksums_get props1 rid img (expected_hash f)"
    define blk where
      "blk = [EvReadAll (image_path f) (Some b), EvSHA512 b] @
             (if force then [EvChecksumsUpdate rid img h] else []) @
             [EvChecksumsGet rid img (fst got) (snd got)]"
    obtain r2 fs2 props2 tr2 where
      rec: "read_verify_loop e rid force props1 fs = (r2, fs2, props2, tr2)"
      by (cases "read_verify_loop e rid force props1 fs") auto
    from Cons.prems(1) Some rec have tr: "tr = blk \<or>
        tr = blk @ tr2 \<and> fst got \<noteq> MALFORMED \<and> (fst got = FOUND \<longrightarrow> snd got = h)"
      by (auto simp: Let_def h_def img_def props1_def got_def blk_def split: if_splits)
    have inblk: "xs = []" if "blk = xs @ EvReadAll p rr # ys'" for xs ys'
      using that by (auto simp: blk_def Cons_eq_append_conv split: if_splits)
    from tr show ?thesis
    proof
      assume "tr = blk"
      with Cons.prems(2) inblk show ?thesis by blast
    next
      assume c: "tr = blk @ tr2 \<and> fst got \<noteq> MALFORMED \<and> (fst got = FOUND \<longrightarrow> snd got = h)"
      with Cons.prems(2) have "blk @ tr2 = xs @ EvReadAll p rr # ys"
        by simp
      from split_append [OF this] show ?thesis
      proof
        assume "\<exists>ys'. blk = xs @ EvReadAll p rr # ys'"
        with inblk show ?thesis by blast
      next
        assume "\<exists>xs'. xs = blk @ xs' \<and> tr2 = xs' @ EvReadAll p rr # ys"
        then obtain xs' where x: "xs = blk @ xs'" "tr2 = xs' @ EvReadAll p rr # ys"
          by blast
        from Cons.IH [OF rec x(2)] show ?thesis
        proof
          assume "xs' = []"
          with x have "xs = [] @ [EvReadAll (image_path f) (Some b), EvSHA512 b] @
             (if force then [EvChecksumsUpdate rid (base_name (image_path f)) (sha512_hex e b)]
              else []) @
             [EvChecksumsGet rid (base_name (image_path f)) (fst got) (snd got)]"
            by (simp add: blk_def img_def h_def)
          with c show ?thesis
            unfolding h_def by blast
        next
          assume "\<exists>zs q b ret out.
            xs' = zs @ [EvReadAll q (Some b), EvSHA512 b] @
             (if force then [EvChecksumsUpdate rid (base_name q) (sha512_hex e b)] else []) @
             [EvChecksumsGet rid (base_name q) ret out] \<and>
            ret \<noteq> MALFORMED \<and> (ret = FOUND \<longrightarrow> out = sha512_hex e b)"
          then obtain zs q b2 ret out where z:
            "xs' = zs @ [EvReadAll q (Some b2), EvSHA512 b2] @
             (if force then [EvChecksumsUpdate rid (base_name q) (sha512_hex e b2)] else []) @
             [EvChecksumsGet rid (base_name q) ret out]"
            "ret \<noteq> MALFORMED" "ret = FOUND \<longrightarrow> out = sha512_hex e b2"
            by blast
          from x z(1) have "xs = (blk @ zs) @ [EvReadAll q (Some b2), EvSHA512 b2] @
             (if force then [EvChecksumsUpdate rid (base_name q) (sha512_hex e b2)] else []) @
             [EvChecksumsGet rid (base_name q) ret out]"
            by simp
          with z(2,3) show ?thesis by blast
        qed
      qed
    qed
  qed
qed

lemma switch_rom_trace_reads:
  "\<exists>r fl' props' tr1 rest.
     read_verify_loop e rid force (snd (checksums_read e Map.empty))
       (init_flashables e rid bdev dirs) = (r, fl', props', tr1) \<and>
     (snd (switch_rom e rid bdev dirs force) = [] \<or>
      snd (switch_rom e rid bdev dirs force) =
        EvChecksumsRead (snd (checksums_read e Map.empty)) # tr1 @ rest) \<and>
     (\<forall>p r. EvReadAll p r \<notin> set rest)"
proof (cases e rid bdev dirs force rule: switch_rom_cases)
  case invalid
  obtain r fl' props' tr1 where
    "read_verify_loop e rid force (snd (checksums_read e Map.empty))
       (init_flashables e rid bdev dirs) = (r, fl', props', tr1)"
    by (cases "read_verify_loop e rid force (snd (checksums_read e Map.empty))
       (init_flashables e rid bdev dirs)") auto
  with invalid show ?thesis
    by (intro exI [of _ r] exI [of _ fl'] exI [of _ props'] exI [of _ tr1] exI [of _ "[]"]) simp
next
  case (early r fl props1 tr1)
  then show ?thesis
    by (intro exI [of _ "Some r"] exI [of _ fl] exI [of _ props1] exI [of _ tr1] exI [of _ "[]"])
       simp
next
  case (missing fl props1 tr1)
  then show ?thesis
    by (intro exI [of _ None] exI [of _ fl] exI [of _ props1] exI [of _ tr1] exI [of _ "[]"])
       simp
next
  case (flash fl props1 tr1 written tr2)
  let ?rest = "tr2 @ (if written then
            (if force then [EvChecksumsWrite props1 (checksums_write e props1)] else []) @
            [EvFixPermissions (fix_permissions e)]
          else [])"
  have "EvReadAll p r \<notin> set ?rest" for p r
    using flash_loop_only_writes [OF flash(5), of "EvReadAll p r"] by auto
  then show ?thesis
    using flash
    by (intro exI [of _ None] exI [of _ fl] exI [of _ props1] exI [of _ tr1] exI [of _ ?rest])
       simp
qed

lemma switch_rom_read_order:
  "(\<exists>n \<le> length (init_flashables e rid bdev dirs).
      read_paths (snd (switch_rom e rid bdev dirs force)) =
        take n (map image_path (init_flashables e rid bdev dirs))) \<and>
   (\<forall>xs p r ys. snd (switch_rom e rid bdev dirs force) = xs @ EvReadAll p r # ys \<longrightarrow>
      xs = [EvChecksumsRead (snd (checksums_read e Map.empty))] \<or>
      (\<exists>zs q b ret out.
         xs = zs @ [EvReadAll q (Some b), EvSHA512 b] @
              (if force then [EvChecksumsUpdate rid (base_name q) (sha512_hex e b)] else []) @
              [EvChecksumsGet rid (base_name q) ret out] \<and>
         ret \<noteq> MALFORMED \<and> (ret = FOUND \<longrightarrow> out = sha512_hex e b)))"
proof -
  let ?E = "EvChecksumsRead (snd (checksums_read e Map.empty))"
  obtain r fl' props' tr1 rest where
    rv: "read_verify_loop e rid force (snd (checksums_read e Map.empty))
       (init_flashables e rid bdev dirs) = (r, fl', props', tr1)"
    and sh: "snd (switch_rom e rid bdev dirs force) = [] \<or>
     snd (switch_rom e rid bdev dirs force) = ?E # tr1 @ rest"
    and nr: "\<And>p r. EvReadAll p r \<notin> set rest"
    using switch_rom_trace_reads [of e rid force bdev dirs] by blast
  have rest: "read_paths rest = []"
    using nr by (rule read_paths_no_read)
  from read_verify_loop_read_paths [OF rv] obtain n where
    n: "n \<le> length (init_flashables e rid bdev dirs)"
      "read_paths tr1 = take n (map image_path (init_flashables e rid bdev dirs))"
    by blast
  have order: "\<exists>n \<le> length (init_flashables e rid bdev dirs).
      read_paths (snd (switch_rom e rid bdev dirs force)) =
        take n (map image_path (init_flashables e rid bdev dirs))"
    using sh
  proof
    assume "snd (switch_rom e rid bdev dirs force) = []"
    then show ?thesis
      by (intro exI [of _ 0]) simp
  next
    assume "snd (switch_rom e rid bdev dirs force) = ?E # tr1 @ rest"
    with n rest show ?thesis
      by (intro exI [of _ n]) (simp add: read_paths_append)
  qed
  have step: "xs = [?E] \<or>
      (\<exists>zs q b ret out.
         xs = zs @ [EvReadAll q (Some b), EvSHA512 b] @
              (if force then [EvChecksumsUpdate rid (base_name q) (sha512_hex e b)] else []) @
              [EvChecksumsGet rid (base_name q) ret out] \<and>
         ret \<noteq> MALFORMED \<and> (ret = FOUND \<longrightarrow> out = sha512_hex e b))"
    if dec: "snd (switch_rom e rid bdev dirs force) = xs @ EvReadAll p rr # ys" for xs p rr ys
  proof -
    from sh dec have eq: "?E # tr1 @ rest = xs @ EvReadAll p rr # ys"
      by auto
    have "EvReadAll p rr \<noteq> ?E" "EvReadAll p rr \<notin> set rest"
      using nr by simp_all
    from split_in_middle [OF eq this] obtain xs' ys' where
      x: "xs = ?E # xs'" "tr1 = xs' @ EvReadAll p rr # ys'"
      by blast
    from read_verify_loop_read_after_pass [OF rv x(2)] show ?thesis
    proof
      assume "xs' = []"
      with x show ?thesis by simp
    next
      assume "\<exists>zs q b ret out.
        xs' = zs @ [EvReadAll q (Some b), EvSHA512 b] @
             (if force then [EvChecksumsUpdate rid (base_name q) (sha512_hex e b)] else []) @
             [EvChecksumsGet rid (base_name q) ret out] \<and>
        ret \<noteq> MALFORMED \<and> (ret = FOUND \<longrightarrow> out = sha512_hex e b)"
      then obtain zs q b ret out where z:
        "xs' = zs @ [EvReadAll q (Some b), EvSHA512 b] @
             (if force then [EvChecksumsUpdate rid (base_name q) (sha512_hex e b)] else []) @
             [EvChecksumsGet rid (base_name q) ret out]"
        "ret \<noteq> MALFORMED" "ret = FOUND \<longrightarrow> out = sha512_hex e b"
        by blast
      from x(1) z(1) have "xs = (?E # zs) @ [EvReadAll q (Some b), EvSHA512 b] @
             (if force then [EvChecksumsUpdate rid (base_name q) (sha512_hex e b)] else []) @
             [EvChecksumsGet rid (base_name q) ret out]"
        by simp
      with z(2,3) show ?thesis by blast
    qed
  qed
  from order step show ?thesis by blast
qed


lemma split_position:
  assumes "l = A @ p # B"
  shows "length A < length l \<and> p = l ! length A \<and> A = take (length A) l"
  using assms by simp

lemma switch_rom_read_position:
  assumes "snd (switch_rom e rid bdev dirs force) = xs @ EvReadAll p r # ys"
  shows "\<exists>n < length (init_flashables e rid bdev dirs).
      p = image_path (init_flashables e rid bdev dirs ! n) \<and>
      read_paths xs = take n (map image_path (init_flashables e rid bdev dirs))"
proof -
  let ?l = "map image_path (init_flashables e rid bdev dirs)"
  from switch_rom_read_order [of e rid bdev dirs force] obtain N where
    N: "N \<le> length (init_flashables e rid bdev dirs)"
      "read_paths (snd (switch_rom e rid bdev dirs force)) = take N ?l"
    by blast
  define k where "k = length (read_paths xs)"
  from N(2) assms have "take N ?l = read_paths xs @ p # read_paths ys"
    by (simp add: read_paths_append)
  note sp = split_position [OF this, folded k_def]
  have k: "k < length (take N ?l)" "p = take N ?l ! k" "read_paths xs = take k (take N ?l)"
    by (rule sp [THEN conjunct1], rule sp [THEN conjunct2, THEN conjunct1],
        rule sp [THEN conjunct2, THEN conjunct2])
  from k(1) N(1) have kN: "k < N" "k < length (init_flashables e rid bdev dirs)"
    by simp_all
  have tk: "take k (take N ?l) = take k ?l"
    using kN(1) by simp
  have nk: "take N ?l ! k = image_path (init_flashables e rid bdev dirs ! k)"
    using kN by simp
  from k(2) nk have "p = image_path (init_flashables e rid bdev dirs ! k)"
    by (rule trans)
  moreover from k(3) tk have "read_paths xs = take k ?l"
    by (rule trans)
  ultimately show ?thesis
    using kN(2) by blast
qed

lemma add_extra_loop_not_Nil:
  "fl \<noteq> [] \<Longrightarrow> add_extra_loop e dir dirs names fl \<noteq> []"
proof (induction names arbitrary: fl)
  case Nil
  then show ?case by simp
next
  case (Cons name names)
  from add_extra_loop_step [of e dir dirs name names fl] show ?case
  proof
    assume "add_extra_loop e dir dirs (name # names) fl = add_extra_loop e dir dirs names fl"
    with Cons.IH [OF Cons.prems] show ?thesis by simp
  next
    assume "\<exists>bd. (name = ''mdm.img'' \<or> name = ''modem.img'') \<and>
      add_extra_loop e dir dirs (name # names) fl =
        add_extra_loop e dir dirs names (fl @ [new_flashable (dir @ ''/'' @ name) bd])"
    then obtain bd where eq: "add_extra_loop e dir dirs (name # names) fl =
        add_extra_loop e dir dirs names (fl @ [new_flashable (dir @ ''/'' @ name) bd])"
      by blast
    have "fl @ [new_flashable (dir @ ''/'' @ name) bd] \<noteq> []"
      by simp
    from Cons.IH [OF this] eq show ?thesis by simp
  qed
qed

lemma init_flashables_not_Nil: "init_flashables e rid bdev dirs \<noteq> []"
  using add_extra_loop_not_Nil
    [of "[new_flashable (MULTIBOOT_DIR @ ''/'' @ rid @ ''/boot.img'') bdev]"
      e "MULTIBOOT_DIR @ ''/'' @ rid" dirs]
  by (simp add: init_flashables_def add_extra_images_def Let_def split: option.splits)

lemma read_verify_loop_early_result:
  "read_verify_loop e rid force props fl = (Some res, fl', props', tr) \<Longrightarrow>
   res = FAILED \<or> res = CHECKSUM_INVALID"
  by (induction fl arbitrary: props fl' props' tr)
     (auto simp: Let_def split: option.splits prod.splits if_splits)

lemma read_verify_loop_reads_done:
  "read_verify_loop e rid force props fl = (r, fl', props', tr) \<Longrightarrow>
   \<exists>n \<le> length fl. read_paths tr = take n (map image_path fl) \<and>
     (fl \<noteq> [] \<longrightarrow> 0 < n) \<and> (r = None \<longrightarrow> n = length fl)"
proof (induction fl arbitrary: props r fl' props' tr)
  case Nil
  then show ?case by simp
next
  case (Cons f fs)
  show ?case
  proof (cases "file_read_all e (image_path f)")
    case None
    with Cons.prems have "read_paths tr = take 1 (map image_path (f # fs))" "r \<noteq> None"
      by auto
    then show ?thesis
      by (intro exI [of _ 1]) auto
  next
    case (Some b)
    define h where "h = sha512_hex e b"
    define img where "img = base_name (image_path f)"
    define props1 where
      "props1 = (if force then checksums_update props rid img h else props)"
    define got where "got = checksums_get props1 rid img (expected_hash f)"
    define blk where
      "blk = [EvReadAll (image_path f) (Some b), EvSHA512 b] @
             (if force then [EvChecksumsUpdate rid img h] else []) @
             [EvChecksumsGet rid img (fst got) (snd got)]"
    have rb: "read_paths blk = [image_path f]"
      by (simp add: blk_def)
    obtain r2 fs2 props2 tr2 where
      rec: "read_verify_loop e rid force props1 fs = (r2, fs2, props2, tr2)"
      by (cases "read_verify_loop e rid force props1 fs") auto
    from Cons.prems Some rec have tr: "tr = blk \<and> r \<noteq> None \<or> tr = blk @ tr2 \<and> r = r2"
      by (auto simp: Let_def h_def img_def props1_def got_def blk_def split: if_splits)
    from Cons.IH [OF rec] obtain n2 where
      n2: "n2 \<le> length fs" "read_paths tr2 = take n2 (map image_path fs)"
        "r2 = None \<longrightarrow> n2 = length fs"
      by blast
    from tr show ?thesis
    proof
      assume "tr = blk \<and> r \<noteq> None"
      with rb have "read_paths tr = take 1 (map image_path (f # fs))" "r \<noteq> None"
        by simp_all
      then show ?thesis
        by (intro exI [of _ 1]) auto
    next
      assume c: "tr = blk @ tr2 \<and> r = r2"
      with rb n2 have "read_paths tr = take (Suc n2) (map image_path (f # fs))"
        by (simp add: read_paths_append)
      with n2(1,3) c show ?thesis
        by (intro exI [of _ "Suc n2"]) simp
    qed
  qed
qed

lemma switch_rom_reads_done:
  "\<exists>n \<le> length (init_flashables e rid bdev dirs).
     read_paths (snd (switch_rom e rid bdev dirs force)) =
       take n (map image_path (init_flashables e rid bdev dirs)) \<and>
     (find_by_id e rid \<and> mkdir_recursive_ok e (MULTIBOOT_DIR @ ''/'' @ rid) \<longrightarrow> 0 < n) \<and>
     (fst (switch_rom e rid bdev dirs force) = SUCCEEDED \<or>
      fst (switch_rom e rid bdev dirs force) = CHECKSUM_NOT_FOUND \<longrightarrow>
        n = length (init_flashables e rid bdev dirs))"
proof (cases e rid bdev dirs force rule: switch_rom_cases)
  case invalid
  then show ?thesis
    by (intro exI [of _ 0]) auto
next
  case (early r fl props1 tr1)
  from read_verify_loop_reads_done [OF early(3)] init_flashables_not_Nil [of e rid bdev dirs]
  obtain n where n: "n \<le> length (init_flashables e rid bdev dirs)"
    "read_paths tr1 = take n (map image_path (init_flashables e rid bdev dirs))" "0 < n"
    by blast
  from read_verify_loop_early_result [OF early(3)] have "r = FAILED \<or> r = CHECKSUM_INVALID" .
  with n early(4) show ?thesis
    by (intro exI [of _ n]) auto
next
  case (missing fl props1 tr1)
  from read_verify_loop_reads_done [OF missing(3)] init_flashables_not_Nil [of e rid bdev dirs]
  obtain n where n: "n \<le> length (init_flashables e rid bdev dirs)"
    "read_paths tr1 = take n (map image_path (init_flashables e rid bdev dirs))" "0 < n"
    "n = length (init_flashables e rid bdev dirs)"
    by blast
  with missing(5) show ?thesis
    by (intro exI [of _ n]) simp
next
  case (flash fl props1 tr1 written tr2)
  from read_verify_loop_reads_done [OF flash(3)] init_flashables_not_Nil [of e rid bdev dirs]
  obtain n where n: "n \<le> length (init_flashables e rid bdev dirs)"
    "read_paths tr1 = take n (map image_path (init_flashables e rid bdev dirs))" "0 < n"
    "n = length (init_flashables e rid bdev dirs)"
    by blast
  let ?rest = "tr2 @ (if written then
            (if force then [EvChecksumsWrite props1 (checksums_write e props1)] else []) @
            [EvFixPermissions (fix_permissions e)]
          else [])"
  have "EvReadAll p r \<notin> set ?rest" for p r
    using flash_loop_only_writes [OF flash(5), of "EvReadAll p r"] by auto
  then have "read_paths ?rest = []"
    by (rule read_paths_no_read)
  then have "read_paths (snd (switch_rom e rid bdev dirs force)) = read_paths tr1"
    unfolding flash(6) snd_conv
    using read_paths_append [of "EvChecksumsRead (snd (checksums_read e Map.empty)) # tr1" ?rest]
    by simp
  with n show ?thesis
    by (intro exI [of _ n]) simp
qed

text \<open>
  C3, as amended. In every execution of \<open>switch_rom\<close>, each digest computation is over
  the buffer that the read just before it returned, and each checksum lookup is for the
  image read and hashed just before it: every image is read into memory before its own
  digest computation and verification begin. The images are read in the order of the
  list, one at a time: the paths read are those of the first images of the list (at
  least the boot image when the ROM id is valid and its directory exists, all of them
  when the result is \<open>SUCCEEDED\<close> or \<open>CHECKSUM_NOT_FOUND\<close>), the read of the image at
  position \<open>n\<close> comes after the reads of exactly the \<open>n\<close> images before it, and it
  comes either first (right after the store was loaded) or right after the image
  before it was read, hashed and looked up, with a lookup that was neither malformed
  nor a mismatch.
\<close>

theorem switch_rom_read_before_own_verification:
  "(\<forall>xs buf ys. snd (switch_rom e rid bdev dirs force) = xs @ EvSHA512 buf # ys \<longrightarrow>
      (\<exists>zs p. xs = zs @ [EvReadAll p (Some buf)])) \<and>
   (\<forall>xs i m ret out ys.
      snd (switch_rom e rid bdev dirs force) = xs @ EvChecksumsGet i m ret out # ys \<longrightarrow>
      (\<exists>zs p buf. m = base_name p \<and>
         xs = zs @ [EvReadAll p (Some buf), EvSHA512 buf] @
              (if force then [EvChecksumsUpdate i m (sha512_hex e buf)] else []))) \<and>
   (\<exists>n \<le> length (init_flashables e rid bdev dirs).
      read_paths (snd (switch_rom e rid bdev dirs force)) =
        take n (map image_path (init_flashables e rid bdev dirs)) \<and>
      (find_by_id e rid \<and> mkdir_recursive_ok e (MULTIBOOT_DIR @ ''/'' @ rid) \<longrightarrow> 0 < n) \<and>
      (fst (switch_rom e rid bdev dirs force) = SUCCEEDED \<or>
       fst (switch_rom e rid bdev dirs force) = CHECKSUM_NOT_FOUND \<longrightarrow>
         n = length (init_flashables e rid bdev dirs))) \<and>
   (\<forall>xs p r ys. snd (switch_rom e rid bdev dirs force) = xs @ EvReadAll p r # ys \<longrightarrow>
      (\<exists>n < length (init_flashables e rid bdev dirs).
         p = image_path (init_flashables e rid bdev dirs ! n) \<and>
         read_paths xs = take n (map image_path (init_flashables e rid bdev dirs))) \<and>
      (xs = [EvChecksumsRead (snd (checksums_read e Map.empty))] \<or>
       (\<exists>zs q b ret out.
          xs = zs @ [EvReadAll q (Some b), EvSHA512 b] @
               (if force then [EvChecksumsUpdate rid (base_name q) (sha512_hex e b)] else []) @
               [EvChecksumsGet rid (base_name q) ret out] \<and>
          ret \<noteq> MALFORMED \<and> (ret = FOUND \<longrightarrow> out = sha512_hex e b))))"
proof -
  note own = switch_rom_hash_and_lookup_after_read [of e rid bdev dirs force]
  note ord = switch_rom_read_order [of e rid bdev dirs force]
  have pos: "\<forall>xs p r ys. snd (switch_rom e rid bdev dirs force) = xs @ EvReadAll p r # ys \<longrightarrow>
      (\<exists>n < length (init_flashables e rid bdev dirs).
         p = image_path (init_flashables e rid bdev dirs ! n) \<and>
         read_paths xs = take n (map image_path (init_flashables e rid bdev dirs))) \<and>
      (xs = [EvChecksumsRead (snd (checksums_read e Map.empty))] \<or>
       (\<exists>zs q b ret out.
          xs = zs @ [EvReadAll q (Some b), EvSHA512 b] @
               (if force then [EvChecksumsUpdate rid (base_name q) (sha512_hex e b)] else []) @
               [EvChecksumsGet rid (base_name q) ret out] \<and>
          ret \<noteq> MALFORMED \<and> (ret = FOUND \<longrightarrow> out = sha512_hex e b)))"
  proof (intro allI impI conjI)
    fix xs p r ys
    assume dec: "snd (switch_rom e rid bdev dirs force) = xs @ EvReadAll p r # ys"
    from switch_rom_read_position [OF dec]
    show "\<exists>n < length (init_flashables e rid bdev dirs).
         p = image_path (init_flashables e rid bdev dirs ! n) \<and>
         read_paths xs = take n (map image_path (init_flashables e rid bdev dirs))" .
    from ord [THEN conjunct2, THEN spec, THEN spec, THEN spec, THEN spec, THEN mp, OF dec]
    show "xs = [EvChecksumsRead (snd (checksums_read e Map.empty))] \<or>
       (\<exists>zs q b ret out.
          xs = zs @ [EvReadAll q (Some b), EvSHA512 b] @
               (if force then [EvChecksumsUpdate rid (base_name q) (sha512_hex e b)] else []) @
               [EvChecksumsGet rid (base_name q) ret out] \<and>
          ret \<noteq> MALFORMED \<and> (ret = FOUND \<longrightarrow> out = sha512_hex e b))" .
  qed
  show ?thesis
    by (intro conjI own [THEN conjunct1] own [THEN conjunct2]
        switch_rom_reads_done [of e rid bdev dirs force] pos)
qed

theorem switch_rom_read_before_own_verification_witness:
  "(\<exists>zs p.
      [EvChecksumsRead Map.empty,
       EvReadAll ''/data/media/0/MultiBoot/r/boot.img'' (Some [1, 2]),
       EvSHA512 [1, 2],
       EvChecksumsUpdate ''r'' ''boot.img'' (sha512_hex example_env [1, 2]),
       EvChecksumsGet ''r'' ''boot.img'' FOUND (sha512_hex example_env [1, 2]),
       EvReadAll ''/data/media/0/MultiBoot/r/modem.img'' (Some [3])] =
      zs @ [EvReadAll p (Some [3])]) \<and>
   snd (switch_rom example_env ''r'' ''/dev/boot'' [''/a'', ''/b''] True) ! 6 = EvSHA512 [3] \<and>
   snd (switch_rom example_env ''r'' ''/dev/boot'' [''/a'', ''/b''] True) ! 5 =
     EvReadAll ''/data/media/0/MultiBoot/r/modem.img'' (Some [3]) \<and>
   read_paths (snd (switch_rom example_env ''r'' ''/dev/boot'' [''/a'', ''/b''] True)) =
     map image_path (init_flashables example_env ''r'' ''/dev/boot'' [''/a'', ''/b'']) \<and>
   (\<exists>n < length (init_flashables example_env ''r'' ''/dev/boot'' [''/a'', ''/b'']).
      ''/data/media/0/MultiBoot/r/modem.img'' =
        image_path (init_flashables example_env ''r'' ''/dev/boot'' [''/a'', ''/b''] ! n) \<and>
      read_paths
        [EvChecksumsRead Map.empty,
         EvReadAll ''/data/media/0/MultiBoot/r/boot.img'' (Some [1, 2]),
         EvSHA512 [1, 2],
         EvChecksumsUpdate ''r'' ''boot.img'' (sha512_hex example_env [1, 2]),
         EvChecksumsGet ''r'' ''boot.img'' FOUND (sha512_hex example_env [1, 2])] =
        take n (map image_path (init_flashables example_env ''r'' ''/dev/boot'' [''/a'', ''/b''])))"
proof -
  have dec: "snd (switch_rom example_env ''r'' ''/dev/boot'' [''/a'', ''/b''] True) =
      [EvChecksumsRead Map.empty,
       EvReadAll ''/data/media/0/MultiBoot/r/boot.img'' (Some [1, 2]),
       EvSHA512 [1, 2],
       EvChecksumsUpdate ''r'' ''boot.img'' (sha512_hex example_env [1, 2]),
       EvChecksumsGet ''r'' ''boot.img'' FOUND (sha512_hex example_env [1, 2]),
       EvReadAll ''/data/media/0/MultiBoot/r/modem.img'' (Some [3])] @
      EvSHA512 [3] #
      [EvChecksumsUpdate ''r'' ''modem.img'' (sha512_hex example_env [3]),
       EvChecksumsGet ''r'' ''modem.img'' FOUND (sha512_hex example_env [3]),
       EvWriteData ''/dev/boot'' [1, 2] True,
       EvWriteData ''/b/modem'' [3] True,
       EvChecksumsWrite
         (checksums_update
            (checksums_update Map.empty ''r'' ''boot.img'' (sha512_hex example_env [1, 2]))
            ''r'' ''modem.img'' (sha512_hex example_env [3])) True,
       EvFixPermissions True]"
    unfolding switch_rom_example_force by simp
  have dec5: "snd (switch_rom example_env ''r'' ''/dev/boot'' [''/a'', ''/b''] True) =
      [EvChecksumsRead Map.empty,
       EvReadAll ''/data/media/0/MultiBoot/r/boot.img'' (Some [1, 2]),
       EvSHA512 [1, 2],
       EvChecksumsUpdate ''r'' ''boot.img'' (sha512_hex example_env [1, 2]),
       EvChecksumsGet ''r'' ''boot.img'' FOUND (sha512_hex example_env [1, 2])] @
      EvReadAll ''/data/media/0/MultiBoot/r/modem.img'' (Some [3]) #
      [EvSHA512 [3],
       EvChecksumsUpdate ''r'' ''modem.img'' (sha512_hex example_env [3]),
       EvChecksumsGet ''r'' ''modem.img'' FOUND (sha512_hex example_env [3]),
       EvWriteData ''/dev/boot'' [1, 2] True,
       EvWriteData ''/b/modem'' [3] True,
       EvChecksumsWrite
         (checksums_update
            (checksums_update Map.empty ''r'' ''boot.img'' (sha512_hex example_env [1, 2]))
            ''r'' ''modem.img'' (sha512_hex example_env [3])) True,
       EvFixPermissions True]"
    unfolding switch_rom_example_force by simp
  have nth: "snd (switch_rom example_env ''r'' ''/dev/boot'' [''/a'', ''/b''] True) ! 6 =
      EvSHA512 [3]"
    unfolding switch_rom_example_force by simp
  have nth5: "snd (switch_rom example_env ''r'' ''/dev/boot'' [''/a'', ''/b''] True) ! 5 =
      EvReadAll ''/data/media/0/MultiBoot/r/modem.img'' (Some [3])"
    unfolding switch_rom_example_force by simp
  have rp: "read_paths (snd (switch_rom example_env ''r'' ''/dev/boot'' [''/a'', ''/b''] True)) =
      map image_path (init_flashables example_env ''r'' ''/dev/boot'' [''/a'', ''/b''])"
    unfolding switch_rom_example_force init_flashables_example
    by (simp add: new_flashable_def)
  note t = switch_rom_read_before_own_verification
    [of example_env "''r''" "''/dev/boot''" "[''/a'', ''/b'']" True]
  note a = t [THEN conjunct1, THEN spec, THEN spec, THEN spec, THEN mp, OF dec]
  note b = t [THEN conjunct2, THEN conjunct2, THEN conjunct2,
      THEN spec, THEN spec, THEN spec, THEN spec, THEN mp, OF dec5, THEN conjunct1]
  show ?thesis
    by (intro conjI a nth nth5 rp b)
qed

section \<open>Forced update of the checksums\<close>

text \<open>
  C9. With \<open>force_update_checksums\<close> set, \<open>switch_rom\<close> never answers
  \<open>CHECKSUM_INVALID\<close> nor \<open>CHECKSUM_NOT_FOUND\<close>, whatever the store held and whether or
  not the reads succeed: every lookup in the trace comes right after the digest
  computation and the update of the same entry with that digest, and answers \<open>FOUND\<close>
  with that digest.
\<close>

theorem switch_rom_force_never_checksum_error:
  "fst (switch_rom e rid bdev dirs True) \<noteq> CHECKSUM_INVALID \<and>
   fst (switch_rom e rid bdev dirs True) \<noteq> CHECKSUM_NOT_FOUND \<and>
   (\<forall>xs i m ret out ys.
      snd (switch_rom e rid bdev dirs True) = xs @ EvChecksumsGet i m ret out # ys \<longrightarrow>
      ret = FOUND \<and>
      (\<exists>zs buf. out = sha512_hex e buf \<and>
         xs = zs @ [EvSHA512 buf, EvChecksumsUpdate i m out]))"
proof -
  have res: "fst (switch_rom e rid bdev dirs True) \<noteq> CHECKSUM_INVALID \<and>
      fst (switch_rom e rid bdev dirs True) \<noteq> CHECKSUM_NOT_FOUND"
  proof (cases e rid bdev dirs True rule: switch_rom_cases)
    case invalid
    then show ?thesis by simp
  next
    case (early r fl props1 tr1)
    with read_verify_loop_force [OF early(3)] show ?thesis by simp
  next
    case (missing fl props1 tr1)
    with read_verify_loop_force [OF missing(3)] show ?thesis by simp
  next
    case (flash fl props1 tr1 written tr2)
    then show ?thesis by simp
  qed
  have get: "ret = FOUND \<and>
      (\<exists>zs buf. out = sha512_hex e buf \<and> xs = zs @ [EvSHA512 buf, EvChecksumsUpdate i m out])"
    if dec: "snd (switch_rom e rid bdev dirs True) = xs @ EvChecksumsGet i m ret out # ys"
    for xs i m ret out ys
  proof -
    from dec obtain r fl' props' tr1 xs' ys' where
      rv: "read_verify_loop e rid True (snd (checksums_read e Map.empty))
         (init_flashables e rid bdev dirs) = (r, fl', props', tr1)"
      and xs: "xs = EvChecksumsRead (snd (checksums_read e Map.empty)) # xs'"
      and tr1: "tr1 = xs' @ EvChecksumsGet i m ret out # ys'"
      by (rule switch_rom_split_verify) blast
    from read_verify_loop_blocks [OF rv, of xs' _ ys' i m ret out] tr1
    obtain zs p b where z: "xs' = zs @ [EvReadAll p (Some b), EvSHA512 b] @
        [EvChecksumsUpdate i m (sha512_hex e b)]" "ret = FOUND" "out = sha512_hex e b"
      by auto
    with xs have "xs = (EvChecksumsRead (snd (checksums_read e Map.empty)) # zs @
        [EvReadAll p (Some b)]) @ [EvSHA512 b, EvChecksumsUpdate i m out]"
      by simp
    with z show ?thesis by blast
  qed
  from res get show ?thesis by blast
qed

theorem switch_rom_force_never_checksum_error_witness:
  "fst (checksums_get (snd (checksums_read env_modem_malformed Map.empty))
          ''r'' ''modem.img'' []) = MALFORMED \<and>
   fst (switch_rom env_modem_malformed ''r'' ''/dev/boot'' [''/a'', ''/b''] True) = SUCCEEDED \<and>
   fst (switch_rom env_modem_malformed ''r'' ''/dev/boot'' [''/a'', ''/b''] True) \<noteq>
     CHECKSUM_INVALID \<and>
   (\<exists>zs buf. sha512_hex example_env [3] = sha512_hex env_modem_malformed buf \<and>
      [EvChecksumsRead [''r/modem.img'' \<mapsto> ''md5:00''],
       EvReadAll ''/data/media/0/MultiBoot/r/boot.img'' (Some [1, 2]),
       EvSHA512 [1, 2],
       EvChecksumsUpdate ''r'' ''boot.img'' (sha512_hex example_env [1, 2]),
       EvChecksumsGet ''r'' ''boot.img'' FOUND (sha512_hex example_env [1, 2]),
       EvReadAll ''/data/media/0/MultiBoot/r/modem.img'' (Some [3]),
       EvSHA512 [3],
       EvChecksumsUpdate ''r'' ''modem.img'' (sha512_hex example_env [3])] =
      zs @ [EvSHA512 buf, EvChecksumsUpdate ''r'' ''modem.img'' (sha512_hex example_env [3])])"
proof -
  have m: "fst (checksums_get (snd (checksums_read env_modem_malformed Map.empty))
          ''r'' ''modem.img'' []) = MALFORMED"
    by (simp add: checksums_get_def checksums_read_def env_modem_malformed_def example_env_def
        substr_def Let_def)
  have s: "fst (switch_rom env_modem_malformed ''r'' ''/dev/boot'' [''/a'', ''/b''] True) =
      SUCCEEDED"
    unfolding switch_rom_example_malformed_force by simp
  have dec: "snd (switch_rom env_modem_malformed ''r'' ''/dev/boot'' [''/a'', ''/b''] True) =
      [EvChecksumsRead [''r/modem.img'' \<mapsto> ''md5:00''],
       EvReadAll ''/data/media/0/MultiBoot/r/boot.img'' (Some [1, 2]),
       EvSHA512 [1, 2],
       EvChecksumsUpdate ''r'' ''boot.img'' (sha512_hex example_env [1, 2]),
       EvChecksumsGet ''r'' ''boot.img'' FOUND (sha512_hex example_env [1, 2]),
       EvReadAll ''/data/media/0/MultiBoot/r/modem.img'' (Some [3]),
       EvSHA512 [3],
       EvChecksumsUpdate ''r'' ''modem.img'' (sha512_hex example_env [3])] @
      EvChecksumsGet ''r'' ''modem.img'' FOUND (sha512_hex example_env [3]) #
      [EvWriteData ''/dev/boot'' [1, 2] True,
       EvWriteData ''/b/modem'' [3] True,
       EvChecksumsWrite
         (checksums_update
            (checksums_update [''r/modem.img'' \<mapsto> ''md5:00''] ''r'' ''boot.img''
               (sha512_hex example_env [1, 2]))
            ''r'' ''modem.img'' (sha512_hex example_env [3])) True,
       EvFixPermissions True]"
    unfolding switch_rom_example_malformed_force by simp
  note t = switch_rom_force_never_checksum_error
    [of env_modem_malformed "''r''" "''/dev/boot''" "[''/a'', ''/b'']"]
  note g = t [THEN conjunct2, THEN conjunct2, THEN spec, THEN spec, THEN spec, THEN spec,
      THEN spec, THEN spec, THEN mp, OF dec, THEN conjunct2]
  show ?thesis
    by (intro conjI m s t [THEN conjunct1] g)
qed

text \<open>
  C5. With \<open>force_update_checksums\<close> set, a valid ROM id, its directory created, every
  image readable, every block device writable and the permissions fixed, \<open>switch_rom\<close>
  answers \<open>SUCCEEDED\<close>, and the store it hands to \<open>checksums_write\<close> maps the key
  \<open><rom_id>/<image_basename>\<close> of every image to \<open>sha512:\<close> followed by the digest of
  the very buffer written to that image's block device; nothing else is written to a
  block device. (This holds whatever the store held before, in particular when it had
  no entry for the images.)
\<close>

theorem switch_rom_force_stores_flashed_digest:
  assumes "find_by_id e rid"
    and "mkdir_recursive_ok e (MULTIBOOT_DIR @ ''/'' @ rid)"
    and "\<forall>f \<in> set (init_flashables e rid bdev dirs). file_read_all e (image_path f) \<noteq> None"
    and "\<forall>f \<in> set (init_flashables e rid bdev dirs). file_write_data_ok e (block_dev f)"
    and "fix_permissions e"
  shows "fst (switch_rom e rid bdev dirs True) = SUCCEEDED \<and>
     (\<exists>stored.
        EvChecksumsWrite stored (checksums_write e stored) \<in>
          set (snd (switch_rom e rid bdev dirs True)) \<and>
        (\<forall>f \<in> set (init_flashables e rid bdev dirs).
           \<exists>buf. file_read_all e (image_path f) = Some buf \<and>
             EvWriteData (block_dev f) buf True \<in> set (snd (switch_rom e rid bdev dirs True)) \<and>
             stored (rid @ ''/'' @ base_name (image_path f)) =
               Some (''sha512:'' @ sha512_hex e buf))) \<and>
     (\<forall>p d ok. EvWriteData p d ok \<in> set (snd (switch_rom e rid bdev dirs True)) \<longrightarrow>
        ok \<and> (\<exists>f \<in> set (init_flashables e rid bdev dirs).
                 p = block_dev f \<and> file_read_all e (image_path f) = Some d))"
proof -
  let ?fl = "init_flashables e rid bdev dirs"
  let ?props = "snd (checksums_read e Map.empty)"
  obtain r fl' props' tr1 where rv: "read_verify_loop e rid True ?props ?fl = (r, fl', props', tr1)"
    by (cases "read_verify_loop e rid True ?props ?fl") auto
  with read_verify_loop_force_readable [OF assms(3), of rid ?props] have r: "r = None"
    by simp
  note rv = rv [unfolded r]
  note pass = read_verify_loop_pass [OF rv]
  have nm: "\<not> missing_loop fl'"
    using read_verify_loop_force [OF rv] by simp
  have len: "length fl' = length ?fl"
    using pass by (simp add: list_all2_lengthD)
  have nth: "\<exists>buf. file_read_all e (image_path (?fl ! i)) = Some buf \<and>
      block_dev (fl' ! i) = block_dev (?fl ! i) \<and> data (fl' ! i) = buf" if "i < length ?fl" for i
    using pass that by (auto simp: list_all2_conv_all_nth)
  have wr: "\<forall>f' \<in> set fl'. file_write_data_ok e (block_dev f')"
  proof
    fix f'
    assume "f' \<in> set fl'"
    then obtain i where i: "i < length fl'" "fl' ! i = f'"
      by (auto simp: in_set_conv_nth)
    with nth [of i] len have "block_dev f' = block_dev (?fl ! i)"
      by auto
    with assms(4) i len show "file_write_data_ok e (block_dev f')"
      by simp
  qed
  obtain written tr2 where fw: "flash_loop e fl' = (written, tr2)"
    by (cases "flash_loop e fl'") auto
  with flash_loop_all_ok [OF wr] have w: "written"
    by simp
  note fw = fw [unfolded eqTrueI [OF w]]
  from flash_loop_ok [OF fw] have tr2: "tr2 = map (\<lambda>f. EvWriteData (block_dev f) (data f) True) fl'"
    by simp
  have sw: "switch_rom e rid bdev dirs True =
      (SUCCEEDED, EvChecksumsRead ?props # tr1 @ tr2 @
         [EvChecksumsWrite props' (checksums_write e props'), EvFixPermissions True])"
    using assms(1,2,5) rv nm fw by (simp add: switch_rom_def Let_def)
  have nw1: "EvWriteData p d ok \<notin> set tr1" for p d ok
    by (rule read_verify_loop_no_write [OF rv])
  have each: "\<exists>buf. file_read_all e (image_path f) = Some buf \<and>
             EvWriteData (block_dev f) buf True \<in> set (snd (switch_rom e rid bdev dirs True)) \<and>
             props' (rid @ ''/'' @ base_name (image_path f)) =
               Some (''sha512:'' @ sha512_hex e buf)"
    if f: "f \<in> set ?fl" for f
  proof -
    from f obtain i where i: "i < length ?fl" "?fl ! i = f"
      by (auto simp: in_set_conv_nth)
    from nth [OF i(1)] i(2) obtain buf where buf: "file_read_all e (image_path f) = Some buf"
      "block_dev (fl' ! i) = block_dev f" "data (fl' ! i) = buf"
      by auto
    from i len have "fl' ! i \<in> set fl'"
      by simp
    then have "EvWriteData (block_dev (fl' ! i)) (data (fl' ! i)) True \<in> set tr2"
      unfolding tr2 by auto
    with buf have ev: "EvWriteData (block_dev f) buf True \<in> set (snd (switch_rom e rid bdev dirs True))"
      unfolding sw by simp
    from read_verify_loop_force_props [OF rv] f obtain g where g: "g \<in> set ?fl"
      "base_name (image_path g) = base_name (image_path f)"
      "props' (rid @ ''/'' @ base_name (image_path f)) =
          Some (''sha512:'' @ sha512_hex e (the (file_read_all e (image_path g))))"
      by blast
    from init_flashables_same_name [OF f g(1) g(2)] g(3) buf
    have "props' (rid @ ''/'' @ base_name (image_path f)) = Some (''sha512:'' @ sha512_hex e buf)"
      by simp
    with buf ev show ?thesis by blast
  qed
  have only: "ok \<and> (\<exists>f \<in> set ?fl. p = block_dev f \<and> file_read_all e (image_path f) = Some d)"
    if "EvWriteData p d ok \<in> set (snd (switch_rom e rid bdev dirs True))" for p d ok
  proof -
    from that nw1 have "EvWriteData p d ok \<in> set tr2"
      unfolding sw by auto
    then obtain i where i: "i < length fl'" "p = block_dev (fl' ! i)" "d = data (fl' ! i)" "ok"
      unfolding tr2 by (auto simp: in_set_conv_nth)
    with nth [of i] len have "file_read_all e (image_path (?fl ! i)) = Some d"
      "p = block_dev (?fl ! i)"
      by auto
    moreover from i len have "?fl ! i \<in> set ?fl"
      by simp
    ultimately show ?thesis
      using i(4) by blast
  qed
  have st: "EvChecksumsWrite props' (checksums_write e props') \<in>
      set (snd (switch_rom e rid bdev dirs True))"
    unfolding sw by simp
  have "fst (switch_rom e rid bdev dirs True) = SUCCEEDED"
    unfolding sw by simp
  with st each only show ?thesis
    by blast
qed

theorem switch_rom_force_stores_flashed_digest_witness:
  "snd (checksums_read example_env Map.empty) ''r/boot.img'' = None \<and>
   snd (checksums_read example_env Map.empty) ''r/modem.img'' = None \<and>
   fst (switch_rom example_env ''r'' ''/dev/boot'' [''/a'', ''/b''] True) = SUCCEEDED \<and>
   (\<exists>stored.
      EvChecksumsWrite stored (checksums_write example_env stored) \<in>
        set (snd (switch_rom example_env ''r'' ''/dev/boot'' [''/a'', ''/b''] True)) \<and>
      (\<exists>buf. file_read_all example_env ''/data/media/0/MultiBoot/r/modem.img'' = Some buf \<and>
         EvWriteData ''/b/modem'' buf True \<in>
           set (snd (switch_rom example_env ''r'' ''/dev/boot'' [''/a'', ''/b''] True)) \<and>
         stored ''r/modem.img'' = Some (''sha512:'' @ sha512_hex example_env buf)))"
proof -
  let ?fl = "init_flashables example_env ''r'' ''/dev/boot'' [''/a'', ''/b'']"
  let ?m = "new_flashable ''/data/media/0/MultiBoot/r/modem.img'' ''/b/modem''"
  have a1: "find_by_id example_env ''r''"
    by (simp add: find_by_id_def example_env_def)
  have a2: "mkdir_recursive_ok example_env (MULTIBOOT_DIR @ ''/'' @ ''r'')"
    by (simp add: example_env_def)
  have a3: "\<forall>f \<in> set ?fl. file_read_all example_env (image_path f) \<noteq> None"
    unfolding init_flashables_example by (simp add: new_flashable_def example_env_def)
  have a4: "\<forall>f \<in> set ?fl. file_write_data_ok example_env (block_dev f)"
    unfolding init_flashables_example by (simp add: new_flashable_def example_env_def)
  have a5: "fix_permissions example_env"
    by (simp add: fix_permissions_def example_env_def)
  have m: "?m \<in> set ?fl"
    unfolding init_flashables_example by simp
  have n: "snd (checksums_read example_env Map.empty) ''r/boot.img'' = None"
    "snd (checksums_read example_env Map.empty) ''r/modem.img'' = None"
    by (simp_all add: checksums_read_def example_env_def)
  note t = switch_rom_force_stores_flashed_digest [OF a1 a2 a3 a4 a5]
  from t obtain stored where
    st: "EvChecksumsWrite stored (checksums_write example_env stored) \<in>
        set (snd (switch_rom example_env ''r'' ''/dev/boot'' [''/a'', ''/b''] True))"
    and all: "\<forall>f \<in> set ?fl.
           \<exists>buf. file_read_all example_env (image_path f) = Some buf \<and>
             EvWriteData (block_dev f) buf True \<in>
               set (snd (switch_rom example_env ''r'' ''/dev/boot'' [''/a'', ''/b''] True)) \<and>
             stored (''r'' @ ''/'' @ base_name (image_path f)) =
               Some (''sha512:'' @ sha512_hex example_env buf)"
    by blast
  from bspec [OF all m] have "\<exists>buf.
      file_read_all example_env ''/data/media/0/MultiBoot/r/modem.img'' = Some buf \<and>
         EvWriteData ''/b/modem'' buf True \<in>
           set (snd (switch_rom example_env ''r'' ''/dev/boot'' [''/a'', ''/b''] True)) \<and>
         stored ''r/modem.img'' = Some (''sha512:'' @ sha512_hex example_env buf)"
    by (simp add: new_flashable_def base_name_def)
  with st have "\<exists>stored.
      EvChecksumsWrite stored (checksums_write example_env stored) \<in>
        set (snd (switch_rom example_env ''r'' ''/dev/boot'' [''/a'', ''/b''] True)) \<and>
      (\<exists>buf. file_read_all example_env ''/data/media/0/MultiBoot/r/modem.img'' = Some buf \<and>
         EvWriteData ''/b/modem'' buf True \<in>
           set (snd (switch_rom example_env ''r'' ''/dev/boot'' [''/a'', ''/b''] True)) \<and>
         stored ''r/modem.img'' = Some (''sha512:'' @ sha512_hex example_env buf))"
    by (intro exI [of _ stored] conjI)
  with n t [THEN conjunct1] show ?thesis
    by (intro conjI)
qed

section \<open>Setting the kernel leaves the other entries alone\<close>

text \<open>
  C6. In every invocation of \<open>set_kernel\<close>, the store handed to \<open>checksums_write\<close>
  agrees with the store as \<open>checksums_read\<close> loaded it on every key other than
  \<open><rom_id>/boot.img\<close>.
\<close>

theorem set_kernel_store_frame:
  "\<forall>loaded stored ok.
     EvChecksumsRead loaded \<in> set (snd (set_kernel e rid bdev)) \<and>
     EvChecksumsWrite stored ok \<in> set (snd (set_kernel e rid bdev)) \<longrightarrow>
     loaded = snd (checksums_read e Map.empty) \<and>
     (\<forall>k. k \<noteq> rid @ ''/boot.img'' \<longrightarrow> stored k = loaded k)"
  by (auto simp: set_kernel_def Let_def checksums_update_eq split: option.splits if_splits)

theorem set_kernel_store_frame_witness:
  "EvChecksumsRead [''r/modem.img'' \<mapsto> ''md5:00''] \<in>
     set (snd (set_kernel env_modem_malformed ''r'' ''/dev/boot'')) \<and>
   EvChecksumsWrite
     (checksums_update [''r/modem.img'' \<mapsto> ''md5:00''] ''r'' ''boot.img''
        (sha512_hex example_env [4])) True \<in>
     set (snd (set_kernel env_modem_malformed ''r'' ''/dev/boot'')) \<and>
   checksums_update [''r/modem.img'' \<mapsto> ''md5:00''] ''r'' ''boot.img''
     (sha512_hex example_env [4]) ''r/modem.img'' = Some ''md5:00''"
proof -
  let ?L = "[''r/modem.img'' \<mapsto> ''md5:00'']"
  let ?S = "checksums_update ?L ''r'' ''boot.img'' (sha512_hex example_env [4])"
  have r: "EvChecksumsRead ?L \<in> set (snd (set_kernel env_modem_malformed ''r'' ''/dev/boot''))"
    unfolding set_kernel_example by simp
  have w: "EvChecksumsWrite ?S True \<in> set (snd (set_kernel env_modem_malformed ''r'' ''/dev/boot''))"
    unfolding set_kernel_example by simp
  have k: "''r/modem.img'' \<noteq> ''r'' @ ''/boot.img''"
    by simp
  note t = set_kernel_store_frame [of env_modem_malformed "''r''" "''/dev/boot''",
      THEN spec, THEN spec, THEN spec, THEN mp, OF conjI [OF r w],
      THEN conjunct2, THEN spec, THEN mp, OF k]
  have "?S ''r/modem.img'' = Some ''md5:00''"
    unfolding t by simp
  with r w show ?thesis
    by (intro conjI)
qed

end
